theory Spec2Isabelle
  imports Main "HOL-Library.Product_Lexorder"
begin

section \<open>Python values used by ai-service/main.py\<close>

text \<open>
  A Python \<open>str\<close> is a sequence of Unicode code points and \<open>len\<close> counts code points,
  so a string is modelled as the list of its code points. \<open>bytes\<close> is a list of 8-bit
  characters. Python integers are unbounded: \<open>int\<close>.
\<close>

type_synonym pystr = "nat list"

type_synonym bytes = "char list"

definition ascii :: "string \<Rightarrow> pystr" where
  "ascii s = map of_char s"

definition len :: "'a list \<Rightarrow> int" where
  "len xs = int (length xs)"

text \<open>
  \<open>str.isspace\<close> of one code point: the code points that \<open>str.strip()\<close> removes
  (bidirectional class WS, B or S, or category Zs).
\<close>

definition isspace :: "nat \<Rightarrow> bool" where
  "isspace c = (c \<in> {0x9, 0xA, 0xB, 0xC, 0xD, 0x1C, 0x1D, 0x1E, 0x1F, 0x20, 0x85, 0xA0,
      0x1680, 0x2000, 0x2001, 0x2002, 0x2003, 0x2004, 0x2005, 0x2006, 0x2007, 0x2008,
      0x2009, 0x200A, 0x2028, 0x2029, 0x202F, 0x205F, 0x3000})"

definition str_strip :: "pystr \<Rightarrow> pystr" where
  "str_strip s = rev (dropWhile isspace (rev (dropWhile isspace s)))"

text \<open>\<open>sep.join(xs)\<close>\<close>

fun str_join :: "pystr \<Rightarrow> pystr list \<Rightarrow> pystr" where
  "str_join sep [] = []"
| "str_join sep [x] = x"
| "str_join sep (x # y # r) = x @ sep @ str_join sep (y # r)"

text \<open>
  \<open>s.find(q)\<close>: the lowest index at which \<open>q\<close> occurs in \<open>s\<close>, or \<open>-1\<close>. The empty
  string occurs at index 0 of every string.
\<close>

fun str_find :: "pystr \<Rightarrow> pystr \<Rightarrow> int" where
  "str_find [] q = (if q = [] then 0 else -1)"
| "str_find (c # s) q =
     (if take (length q) (c # s) = q then 0
      else (let r = str_find s q in if r < 0 then -1 else r + 1))"

text \<open>\<open>q in s\<close> on strings\<close>

definition str_contains :: "pystr \<Rightarrow> pystr \<Rightarrow> bool" where
  "str_contains s q = (0 \<le> str_find s q)"

text \<open>\<open>s.endswith(q)\<close>\<close>

definition str_endswith :: "pystr \<Rightarrow> pystr \<Rightarrow> bool" where
  "str_endswith s q = (length q \<le> length s \<and> drop (length s - length q) s = q)"

text \<open>
  Slices \<open>xs[i:j]\<close> and \<open>xs[:j]\<close> with Python's treatment of bounds: a negative bound
  counts from the end, and every bound is clamped to \<open>0..len(xs)\<close>.
\<close>

definition py_slice_bound :: "'a list \<Rightarrow> int \<Rightarrow> nat" where
  "py_slice_bound xs i =
     (if i < 0 then nat (max 0 (len xs + i)) else min (length xs) (nat i))"

definition py_slice :: "'a list \<Rightarrow> int \<Rightarrow> int \<Rightarrow> 'a list" where
  "py_slice xs i j =
     take (py_slice_bound xs j - py_slice_bound xs i) (drop (py_slice_bound xs i) xs)"

definition py_slice_to :: "'a list \<Rightarrow> int \<Rightarrow> 'a list" where
  "py_slice_to xs j = take (py_slice_bound xs j) xs"

text \<open>\<open>str(n)\<close> of an integer, in decimal.\<close>

fun digits :: "nat \<Rightarrow> pystr" where
  "digits n = (if n < 10 then [48 + n] else digits (n div 10) @ [48 + n mod 10])"

definition str_int :: "int \<Rightarrow> pystr" where
  "str_int i = (if i < 0 then 45 # digits (nat (- i)) else digits (nat i))"

text \<open>\<open>range(i, j)\<close>\<close>

definition py_range :: "int \<Rightarrow> int \<Rightarrow> int list" where
  "py_range i j = [i..j - 1]"

text \<open>
  Exceptions as values. \<open>HTTPException(status, detail)\<close> is what the service raises;
  \<open>IndexError\<close> is what \<open>xs[i]\<close> raises out of range.
\<close>

datatype error = HTTPException int pystr | IndexError

text \<open>\<open>xs[i]\<close> on a list: a negative index counts from the end.\<close>

definition py_index :: "'a list \<Rightarrow> int \<Rightarrow> error + 'a" where
  "py_index xs i =
     (let j = (if i < 0 then len xs + i else i)
      in if 0 \<le> j \<and> j < len xs then Inr (xs ! nat j) else Inl IndexError)"

section \<open>Schema\<close>

text \<open>
  The pydantic models, one record each. A field carries a prefix naming its model
  (\<open>ob_\<close>, \<open>rk_\<close>, \<open>cl_\<close>, \<open>hl_\<close>, \<open>ar_\<close>, \<open>ch_\<close>, \<open>cr_\<close>), since several models
  have a field \<open>text\<close> or \<open>clause\<close>; the dicts \<open>versionA\<close> and \<open>versionB\<close> of a
  ComparisonReport are the record \<open>Version\<close>.
\<close>

datatype severity = low | medium | high

datatype clause_status = standard | unusual | restrictive

datatype highlight_kind = obligation | risk | clause

datatype file_type = pdf | docx | "txt"

datatype change_type = added | modified | removed

record Obligation =
  ob_text :: pystr
  ob_clause :: pystr

record Risk =
  rk_text :: pystr
  rk_clause :: pystr
  rk_severity :: severity

record Clause =
  cl_name :: pystr
  cl_status :: clause_status
  cl_description :: pystr

record Highlight =
  hl_kind :: highlight_kind
  hl_clause :: "pystr option"
  hl_text :: pystr
  hl_rangeStart :: int
  hl_rangeEnd :: int

record AnalysisReport =
  ar_summary :: pystr
  ar_obligations :: "Obligation list"
  ar_risks :: "Risk list"
  ar_clauses :: "Clause list"
  ar_riskLevel :: severity
  ar_tags :: "pystr list"
  ar_size :: pystr
  ar_type :: file_type
  ar_pages :: int
  ar_analyzedText :: pystr
  ar_pageOffsets :: "int list"
  ar_highlights :: "Highlight list"

record Change =
  ch_type :: change_type
  ch_section :: pystr
  ch_description :: pystr
  ch_impact :: pystr

record Version =
  v_title :: pystr
  v_content :: pystr

record ComparisonReport =
  cr_versionA :: Version
  cr_versionB :: Version
  cr_changes :: "Change list"

section \<open>Offset extractor: \<open>read_docx\<close> and \<open>read_pdf_and_offsets\<close>\<close>

text \<open>
  The decoders are outside the repository. \<open>docx.Document(b)\<close> either raises (\<open>Inl\<close> of
  the exception's text) or yields the texts of the paragraphs. \<open>PdfReader(b)\<close> either
  raises or yields the pages, and \<open>extract_text()\<close> of a page either raises or returns
  \<open>None\<close> or a string.
\<close>

type_synonym docx_decoder = "bytes \<Rightarrow> pystr + pystr list"

type_synonym pdf_page = "pystr + pystr option"

type_synonym pdf_decoder = "bytes \<Rightarrow> pystr + pdf_page list"

definition read_docx :: "docx_decoder \<Rightarrow> bytes \<Rightarrow> error + pystr" where
  "read_docx Document b =
     (case Document b of
        Inl e \<Rightarrow> Inl (HTTPException 400 (ascii ''Could not process DOCX: '' @ e))
      | Inr paragraphs \<Rightarrow> Inr (str_join [10] paragraphs))"

text \<open>
  The loop of \<open>read_pdf_and_offsets\<close> over \<open>r.pages\<close>, with its three variables
  \<open>offsets\<close>, \<open>chunks\<close> and \<open>total\<close> (here \<open>tot\<close>); an exception of \<open>extract_text\<close> leaves the loop.
\<close>

fun pdf_pages_loop ::
  "pdf_page list \<Rightarrow> int list \<Rightarrow> pystr list \<Rightarrow> int \<Rightarrow> pystr + (int list \<times> pystr list)" where
  "pdf_pages_loop [] offsets chunks tot = Inr (offsets, chunks)"
| "pdf_pages_loop (p # ps) offsets chunks tot =
     (case p of
        Inl e \<Rightarrow> Inl e
      | Inr r \<Rightarrow>
          (let t = (case r of None \<Rightarrow> [] | Some s \<Rightarrow> s)
           in pdf_pages_loop ps (offsets @ [tot]) (chunks @ [t]) (tot + len t)))"

definition read_pdf_and_offsets ::
  "pdf_decoder \<Rightarrow> bytes \<Rightarrow> error + (pystr \<times> int list \<times> int)" where
  "read_pdf_and_offsets PdfReader b =
     (case PdfReader b of
        Inl e \<Rightarrow> Inl (HTTPException 400 (ascii ''Could not process PDF: '' @ e))
      | Inr r_pages \<Rightarrow>
          (case pdf_pages_loop r_pages [] [] 0 of
             Inl e \<Rightarrow> Inl (HTTPException 400 (ascii ''Could not process PDF: '' @ e))
           | Inr (offsets, chunks) \<Rightarrow> Inr (str_join [10] chunks, offsets, len r_pages)))"

section \<open>Risk classifier and snippet locator\<close>

definition classify_overall_risk :: "Risk list \<Rightarrow> severity" where
  "classify_overall_risk risks =
     (if \<exists>r \<in> set risks. rk_severity r = high then high
      else if \<exists>r \<in> set risks. rk_severity r = medium then medium
      else low)"

text \<open>
  \<open>str.lower()\<close> applies the Unicode case mapping, which is not part of the repository
  and can change the number of code points. The functions that call it take it as the
  parameter \<open>lower\<close>.

  The inner function \<open>add\<close> of \<open>build_highlights\<close>: it appends to the list \<open>hl\<close> of the
  enclosing function, which is passed in and returned here.
\<close>

definition add ::
  "(pystr \<Rightarrow> pystr) \<Rightarrow> pystr \<Rightarrow> Highlight list \<Rightarrow> highlight_kind \<Rightarrow> pystr \<Rightarrow> pystr option
     \<Rightarrow> Highlight list" where
  "add lower text hl kind snippet clause_label =
     (if snippet = [] then hl
      else
        (let q = take 160 (str_strip snippet);
             i = str_find (lower text) (lower q)
         in if i \<ge> 0
            then hl @ [\<lparr>hl_kind = kind, hl_clause = clause_label, hl_text = q,
                         hl_rangeStart = i, hl_rangeEnd = i + len q\<rparr>]
            else hl))"

definition build_highlights ::
  "(pystr \<Rightarrow> pystr) \<Rightarrow> pystr \<Rightarrow> Obligation list \<Rightarrow> Risk list \<Rightarrow> Clause list
     \<Rightarrow> Highlight list" where
  "build_highlights lower text obligations risks clauses =
     (let hl = [];
          hl = foldl (\<lambda>hl ob. add lower text hl obligation (ob_text ob) (Some (ob_clause ob)))
                 hl obligations;
          hl = foldl (\<lambda>hl r. add lower text hl risk (rk_text r) (Some (rk_clause r))) hl risks;
          hl = foldl (\<lambda>hl c. add lower text hl clause
                         (if cl_description c \<noteq> [] then cl_description c else cl_name c) None)
                 hl clauses
      in hl)"

text \<open>
  The value of \<open>str.lower()\<close> on strings made of ASCII code points and of U+0130 (capital
  I with dot above), whose lower case is the two code points U+0069 U+0307. It leaves
  every other code point as it is, so it is \<open>str.lower()\<close> on such strings only; it
  serves to run the functions above on them.
\<close>

definition lower_cp :: "nat \<Rightarrow> pystr" where
  "lower_cp c =
     (if 65 \<le> c \<and> c \<le> 90 then [c + 32] else if c = 0x130 then [0x69, 0x307] else [c])"

definition lower_sample :: "pystr \<Rightarrow> pystr" where
  "lower_sample s = concat (map lower_cp s)"

section \<open>Segmenter\<close>

text \<open>\<open>s.split("\n\n")\<close>: the separator is searched from left to right, without overlaps.\<close>

fun str_split_nn :: "pystr \<Rightarrow> pystr list" where
  "str_split_nn (c1 # c2 # rest) =
     (if c1 = 10 \<and> c2 = 10 then [] # str_split_nn rest
      else (case str_split_nn (c2 # rest) of
              blk # blks \<Rightarrow> (c1 # blk) # blks
            | [] \<Rightarrow> [[c1]]))"
| "str_split_nn [c] = [[c]]"
| "str_split_nn [] = [[]]"

definition split_sections :: "pystr \<Rightarrow> pystr list" where
  "split_sections s = map str_strip (filter (\<lambda>blk. str_strip blk \<noteq> []) (str_split_nn s))"

section \<open>Sequence aligner: \<open>difflib.SequenceMatcher(a=a, b=b, autojunk=False)\<close>\<close>

text \<open>
  \<open>diff_sections\<close> aligns the two section lists with \<open>SequenceMatcher.get_opcodes\<close> of
  Python's standard library. The definitions below follow \<open>Lib/difflib.py\<close> of
  CPython 3.11 for the arguments \<open>diff_sections\<close> passes: no junk predicate and
  \<open>autojunk=False\<close>, so that \<open>bjunk\<close> and \<open>bpopular\<close> stay empty and the two loops of
  \<open>find_longest_match\<close> that extend a match over junk never run.

  \<open>__chain_b\<close>: \<open>b2j\<close> maps every element of \<open>b\<close> to the list of the indices at which
  it occurs.
\<close>

fun chain_b_loop :: "int \<Rightarrow> 'a list \<Rightarrow> ('a \<rightharpoonup> int list) \<Rightarrow> ('a \<rightharpoonup> int list)" where
  "chain_b_loop i [] b2j = b2j"
| "chain_b_loop i (elt # rest) b2j =
     (let indices = (case b2j elt of None \<Rightarrow> [] | Some ix \<Rightarrow> ix)
      in chain_b_loop (i + 1) rest (b2j(elt \<mapsto> indices @ [i])))"

definition chain_b :: "'a list \<Rightarrow> ('a \<rightharpoonup> int list)" where
  "chain_b b = chain_b_loop 0 b Map.empty"

text \<open>A match \<open>(i, j, k)\<close>: \<open>a[i:i+k] == b[j:j+k]\<close>.\<close>

type_synonym match = "int \<times> int \<times> int"

text \<open>
  \<open>find_longest_match\<close>, the loop \<open>for j in b2j.get(a[i], nothing)\<close>. Its state is
  \<open>newj2len\<close> and the best match so far; \<open>continue\<close> goes on with the next index,
  \<open>break\<close> leaves the loop.
\<close>

fun flm_inner ::
  "(int \<rightharpoonup> int) \<Rightarrow> int \<Rightarrow> int \<Rightarrow> int \<Rightarrow> int list \<Rightarrow> (int \<rightharpoonup> int) \<times> match
     \<Rightarrow> (int \<rightharpoonup> int) \<times> match" where
  "flm_inner j2len i blo bhi [] st = st"
| "flm_inner j2len i blo bhi (j # js) (newj2len, besti, bestj, bestsize) =
     (if j < blo then flm_inner j2len i blo bhi js (newj2len, besti, bestj, bestsize)
      else if j \<ge> bhi then (newj2len, besti, bestj, bestsize)
      else
        (let k = (case j2len (j - 1) of None \<Rightarrow> 0 | Some v \<Rightarrow> v) + 1;
             newj2len = newj2len(j \<mapsto> k)
         in if k > bestsize
            then flm_inner j2len i blo bhi js (newj2len, i - k + 1, j - k + 1, k)
            else flm_inner j2len i blo bhi js (newj2len, besti, bestj, bestsize)))"

text \<open>The loop \<open>for i in range(alo, ahi)\<close>, with the state \<open>j2len\<close> and the best match.\<close>

fun flm_outer ::
  "'a list \<Rightarrow> ('a \<rightharpoonup> int list) \<Rightarrow> int \<Rightarrow> int \<Rightarrow> int list \<Rightarrow> (int \<rightharpoonup> int) \<times> match
     \<Rightarrow> error + (int \<rightharpoonup> int) \<times> match" where
  "flm_outer a b2j blo bhi [] st = Inr st"
| "flm_outer a b2j blo bhi (i # is) (j2len, best) =
     (case py_index a i of
        Inl e \<Rightarrow> Inl e
      | Inr x \<Rightarrow>
          flm_outer a b2j blo bhi is
            (flm_inner j2len i blo bhi (case b2j x of None \<Rightarrow> [] | Some js \<Rightarrow> js)
               (Map.empty, best)))"

text \<open>
  The first \<open>while\<close> loop extends the match to the left, the second to the right.
  \<open>isbjunk\<close> is false of every element, and \<open>b\<close> is read before \<open>a\<close>.
\<close>

function extend_left :: "'a list \<Rightarrow> 'a list \<Rightarrow> int \<Rightarrow> int \<Rightarrow> match \<Rightarrow> error + match" where
  "extend_left a b alo blo (besti, bestj, bestsize) =
     (if besti > alo \<and> bestj > blo then
        (case py_index b (bestj - 1) of
           Inl e \<Rightarrow> Inl e
         | Inr y \<Rightarrow>
             (case py_index a (besti - 1) of
                Inl e \<Rightarrow> Inl e
              | Inr x \<Rightarrow>
                  if x = y then extend_left a b alo blo (besti - 1, bestj - 1, bestsize + 1)
                  else Inr (besti, bestj, bestsize)))
      else Inr (besti, bestj, bestsize))"
  by pat_completeness auto
termination
  by (relation "measure (\<lambda>(a, b, alo, blo, besti, bestj, bestsize). nat (besti - alo))") auto

function extend_right :: "'a list \<Rightarrow> 'a list \<Rightarrow> int \<Rightarrow> int \<Rightarrow> match \<Rightarrow> error + match" where
  "extend_right a b ahi bhi (besti, bestj, bestsize) =
     (if besti + bestsize < ahi \<and> bestj + bestsize < bhi then
        (case py_index b (bestj + bestsize) of
           Inl e \<Rightarrow> Inl e
         | Inr y \<Rightarrow>
             (case py_index a (besti + bestsize) of
                Inl e \<Rightarrow> Inl e
              | Inr x \<Rightarrow>
                  if x = y then extend_right a b ahi bhi (besti, bestj, bestsize + 1)
                  else Inr (besti, bestj, bestsize)))
      else Inr (besti, bestj, bestsize))"
  by pat_completeness auto
termination
  by (relation "measure (\<lambda>(a, b, ahi, bhi, besti, bestj, bestsize). nat (ahi - besti - bestsize))")
    auto

definition find_longest_match ::
  "'a list \<Rightarrow> 'a list \<Rightarrow> ('a \<rightharpoonup> int list) \<Rightarrow> int \<Rightarrow> int \<Rightarrow> int \<Rightarrow> int \<Rightarrow> error + match" where
  "find_longest_match a b b2j alo ahi blo bhi =
     (case flm_outer a b2j blo bhi (py_range alo ahi) (Map.empty, (alo, blo, 0)) of
        Inl e \<Rightarrow> Inl e
      | Inr (j2len, best) \<Rightarrow>
          (case extend_left a b alo blo best of
             Inl e \<Rightarrow> Inl e
           | Inr best \<Rightarrow> extend_right a b ahi bhi best))"


text \<open>
  What \<open>find_longest_match\<close> returns lies in the region it was asked about: either the
  empty match \<open>(alo, blo, 0)\<close> or a match of positive size inside \<open>[alo, ahi)\<close> and
  \<open>[blo, bhi)\<close>. This holds for all arguments, and it is what makes the loop of
  \<open>get_matching_blocks\<close> terminate.
\<close>

definition match_in :: "int \<Rightarrow> int \<Rightarrow> int \<Rightarrow> int \<Rightarrow> match \<Rightarrow> bool" where
  "match_in alo ahi blo bhi m =
     (case m of (i, j, k) \<Rightarrow>
        (k = 0 \<and> i = alo \<and> j = blo) \<or>
        (0 < k \<and> alo \<le> i \<and> i + k \<le> ahi \<and> blo \<le> j \<and> j + k \<le> bhi))"

definition row_ok :: "int \<Rightarrow> int \<Rightarrow> int \<Rightarrow> int \<Rightarrow> (int \<rightharpoonup> int) \<Rightarrow> bool" where
  "row_ok alo blo bhi i m =
     (\<forall>j v. m j = Some v \<longrightarrow> blo \<le> j \<and> j < bhi \<and> 1 \<le> v \<and> v \<le> j - blo + 1 \<and> v \<le> i - alo)"

lemma row_okD:
  "row_ok alo blo bhi i m \<Longrightarrow> m j = Some v \<Longrightarrow>
     blo \<le> j \<and> j < bhi \<and> 1 \<le> v \<and> v \<le> j - blo + 1 \<and> v \<le> i - alo"
  by (simp add: row_ok_def)

lemma match_in_mono: "match_in alo ahi blo bhi m \<Longrightarrow> ahi \<le> ahi' \<Longrightarrow> match_in alo ahi' blo bhi m"
  by (auto simp: match_in_def split: prod.splits)

lemma flm_inner_inv:
  assumes "row_ok alo blo bhi i j2len" "row_ok alo blo bhi (i + 1) newj2len"
    "match_in alo (i + 1) blo bhi best" "alo \<le> i"
    "flm_inner j2len i blo bhi js (newj2len, best) = (m', best')"
  shows "row_ok alo blo bhi (i + 1) m' \<and> match_in alo (i + 1) blo bhi best'"
  using assms
proof (induction js arbitrary: newj2len best)
  case Nil
  then show ?case by simp
next
  case (Cons j js)
  obtain besti bestj bestsize where best: "best = (besti, bestj, bestsize)"
    by (cases best) auto
  show ?case
  proof (cases "j < blo")
    case True
    with Cons best show ?thesis by simp
  next
    case lo: False
    show ?thesis
    proof (cases "j \<ge> bhi")
      case True
      with Cons.prems lo best show ?thesis by simp
    next
      case hi: False
      define k where "k = (case j2len (j - 1) of None \<Rightarrow> 0 | Some v \<Rightarrow> v) + 1"
      have k: "1 \<le> k \<and> k \<le> j - blo + 1 \<and> k \<le> i + 1 - alo"
      proof (cases "j2len (j - 1)")
        case None
        then show ?thesis using Cons.prems(4) lo hi by (simp add: k_def)
      next
        case (Some v)
        from row_okD[OF Cons.prems(1) Some] Some show ?thesis by (simp add: k_def)
      qed
      have row': "row_ok alo blo bhi (i + 1) (newj2len(j \<mapsto> k))"
        using Cons.prems(2) k lo hi unfolding row_ok_def by auto
      show ?thesis
      proof (cases "k > bestsize")
        case True
        have m: "match_in alo (i + 1) blo bhi (i - k + 1, j - k + 1, k)"
          using k lo hi by (auto simp: match_in_def)
        have "flm_inner j2len i blo bhi js (newj2len(j \<mapsto> k), (i - k + 1, j - k + 1, k)) = (m', best')"
          using Cons.prems(5) lo hi True best by (simp add: k_def Let_def)
        from Cons.IH[OF Cons.prems(1) row' m Cons.prems(4) this] show ?thesis .
      next
        case False
        have "flm_inner j2len i blo bhi js (newj2len(j \<mapsto> k), best) = (m', best')"
          using Cons.prems(5) lo hi False best by (simp add: k_def Let_def)
        from Cons.IH[OF Cons.prems(1) row' Cons.prems(3) Cons.prems(4) this] show ?thesis .
      qed
    qed
  qed
qed

lemma row_ok_empty: "row_ok alo blo bhi i Map.empty"
  by (simp add: row_ok_def)

lemma flm_outer_inv:
  assumes "row_ok alo blo bhi i j2len" "match_in alo i blo bhi best" "alo \<le> i" "i \<le> h + 1"
    "flm_outer a b2j blo bhi [i..h] (j2len, best) = Inr (m', best')"
  shows "match_in alo (h + 1) blo bhi best'"
  using assms
proof (induction i h arbitrary: j2len best rule: upto.induct)
  case (1 i h)
  show ?case
  proof (cases "i \<le> h")
    case False
    with 1 have "i = h + 1" "best' = best" by (auto simp: upto_rec1[of i h])
    with 1 show ?thesis by simp
  next
    case True
    then have up: "[i..h] = i # [i + 1..h]" by (simp add: upto_rec1)
    from "1.prems"(5) obtain x where x: "py_index a i = Inr x"
      and run: "flm_outer a b2j blo bhi [i + 1..h]
          (flm_inner j2len i blo bhi (case b2j x of None \<Rightarrow> [] | Some js \<Rightarrow> js) (Map.empty, best)) = Inr (m', best')"
      unfolding up by (auto split: sum.splits)
    obtain m1 best1 where st: "flm_inner j2len i blo bhi (case b2j x of None \<Rightarrow> [] | Some js \<Rightarrow> js) (Map.empty, best) = (m1, best1)"
      by (cases "flm_inner j2len i blo bhi (case b2j x of None \<Rightarrow> [] | Some js \<Rightarrow> js) (Map.empty, best)") auto
    have "row_ok alo blo bhi (i + 1) m1 \<and> match_in alo (i + 1) blo bhi best1"
      by (rule flm_inner_inv[OF "1.prems"(1) row_ok_empty match_in_mono[OF "1.prems"(2)] "1.prems"(3) st]) simp
    then show ?thesis
      using "1.IH"[OF True, of m1 best1] run st True "1.prems"(3) by simp
  qed
qed

declare extend_left.simps [simp del] extend_right.simps [simp del]

lemma extend_left_inv:
  "match_in alo ahi blo bhi m \<Longrightarrow> extend_left a b alo blo m = Inr m' \<Longrightarrow> match_in alo ahi blo bhi m'"
proof (induction a b alo blo m rule: extend_left.induct)
  case (1 a b alo blo besti bestj bestsize)
  note eq1 = extend_left.simps[of a b alo blo besti bestj bestsize]
  show ?case
  proof (cases "besti > alo \<and> bestj > blo")
    case False
    with "1.prems" show ?thesis by (simp add: eq1)
  next
    case True
    with "1.prems"(2) obtain x y where xy: "py_index b (bestj - 1) = Inr y" "py_index a (besti - 1) = Inr x"
      by (auto simp: eq1 split: sum.splits)
    show ?thesis
    proof (cases "x = y")
      case False
      with "1.prems" True xy show ?thesis by (simp add: eq1)
    next
      case eq: True
      have "match_in alo ahi blo bhi (besti - 1, bestj - 1, bestsize + 1)"
        using "1.prems"(1) True by (auto simp: match_in_def)
      moreover have "extend_left a b alo blo (besti - 1, bestj - 1, bestsize + 1) = Inr m'"
        using "1.prems"(2) True xy eq by (simp add: eq1)
      ultimately show ?thesis
        using "1.IH"[OF True xy(1) xy(2) eq] by simp
    qed
  qed
qed

lemma extend_right_inv:
  "match_in alo ahi blo bhi m \<Longrightarrow> extend_right a b ahi bhi m = Inr m' \<Longrightarrow> match_in alo ahi blo bhi m'"
proof (induction a b ahi bhi m rule: extend_right.induct)
  case (1 a b ahi bhi besti bestj bestsize)
  note eq1 = extend_right.simps[of a b ahi bhi besti bestj bestsize]
  show ?case
  proof (cases "besti + bestsize < ahi \<and> bestj + bestsize < bhi")
    case False
    with "1.prems" show ?thesis by (simp add: eq1)
  next
    case True
    with "1.prems"(2) obtain x y where xy: "py_index b (bestj + bestsize) = Inr y" "py_index a (besti + bestsize) = Inr x"
      by (auto simp: eq1 split: sum.splits)
    show ?thesis
    proof (cases "x = y")
      case False
      with "1.prems" True xy show ?thesis by (simp add: eq1)
    next
      case eq: True
      have "match_in alo ahi blo bhi (besti, bestj, bestsize + 1)"
        using "1.prems"(1) True by (auto simp: match_in_def)
      moreover have "extend_right a b ahi bhi (besti, bestj, bestsize + 1) = Inr m'"
        using "1.prems"(2) True xy eq by (simp add: eq1)
      ultimately show ?thesis
        using "1.IH"[OF True xy(1) xy(2) eq] by simp
    qed
  qed
qed

lemma find_longest_match_in:
  assumes "find_longest_match a b b2j alo ahi blo bhi = Inr m"
  shows "match_in alo ahi blo bhi m"
proof -
  from assms obtain j2len best best2 where
    o: "flm_outer a b2j blo bhi [alo..ahi - 1] (Map.empty, (alo, blo, 0)) = Inr (j2len, best)"
    and l: "extend_left a b alo blo best = Inr best2"
    and r: "extend_right a b ahi bhi best2 = Inr m"
    by (auto simp: find_longest_match_def py_range_def split: sum.splits)
  have init: "match_in alo alo blo bhi (alo, blo, 0)" by (simp add: match_in_def)
  have "match_in alo ahi blo bhi best"
  proof (cases "alo \<le> ahi")
    case True
    from flm_outer_inv[OF row_ok_empty init _ _ o] True show ?thesis by simp
  next
    case False
    with o have "best = (alo, blo, 0)" by simp
    then show ?thesis by (simp add: match_in_def)
  qed
  from extend_right_inv[OF extend_left_inv[OF this l] r] show ?thesis .
qed


text \<open>
  \<open>get_matching_blocks\<close>, the loop \<open>while queue\<close>. The Python list \<open>queue\<close> is used as
  a stack (\<open>append\<close> and \<open>pop\<close> at its end); here its last element is the head of the
  list.
\<close>

type_synonym region = "int \<times> int \<times> int \<times> int"

definition region_size :: "region \<Rightarrow> nat" where
  "region_size r = (case r of (alo, ahi, blo, bhi) \<Rightarrow> 2 * nat (ahi - alo) + 1)"

function blocks_loop ::
  "'a list \<Rightarrow> 'a list \<Rightarrow> ('a \<rightharpoonup> int list) \<Rightarrow> region list \<Rightarrow> match list \<Rightarrow> error + match list" where
  "blocks_loop a b b2j [] matching_blocks = Inr matching_blocks"
| "blocks_loop a b b2j ((alo, ahi, blo, bhi) # queue) matching_blocks =
     (case find_longest_match a b b2j alo ahi blo bhi of
        Inl e \<Rightarrow> Inl e
      | Inr (i, j, k) \<Rightarrow>
          if k \<noteq> 0 then
            (let matching_blocks = matching_blocks @ [(i, j, k)];
                 queue = (if alo < i \<and> blo < j then (alo, i, blo, j) # queue else queue);
                 queue = (if i + k < ahi \<and> j + k < bhi then (i + k, ahi, j + k, bhi) # queue
                          else queue)
             in blocks_loop a b b2j queue matching_blocks)
          else blocks_loop a b b2j queue matching_blocks)"
  by pat_completeness auto
termination
proof (relation "measure (\<lambda>(a, b, b2j, queue, mbs). sum_list (map region_size queue))")
  show "wf (measure (\<lambda>(a, b, b2j, queue, mbs). sum_list (map region_size queue)))" by simp
next
  fix a b :: "'a list" and b2j alo ahi blo bhi queue and matching_blocks :: "match list"
    and x2 x1 x2a x1a x2b xa xb xc
  assume "find_longest_match a b b2j alo ahi blo bhi = Inr x2" "(x1, x2a) = x2" "(x1a, x2b) = x2a"
    "x2b \<noteq> 0"
  then have "match_in alo ahi blo bhi (x1, x1a, x2b)" using find_longest_match_in by metis
  with \<open>x2b \<noteq> 0\<close> have "0 < x2b" "alo \<le> x1" "x1 + x2b \<le> ahi" by (auto simp: match_in_def)
  assume "xa = matching_blocks @ [(x1, x1a, x2b)]"
    "xb = (if alo < x1 \<and> blo < x1a then (alo, x1, blo, x1a) # queue else queue)"
    "xc = (if x1 + x2b < ahi \<and> x1a + x2b < bhi then (x1 + x2b, ahi, x1a + x2b, bhi) # xb else xb)"
  with \<open>0 < x2b\<close> \<open>alo \<le> x1\<close> \<open>x1 + x2b \<le> ahi\<close>
  show "((a, b, b2j, xc, xa), a, b, b2j, (alo, ahi, blo, bhi) # queue, matching_blocks)
       \<in> measure (\<lambda>(a, b, b2j, queue, mbs). sum_list (map region_size queue))"
    by (auto simp: region_size_def)
next
  fix a b :: "'a list" and b2j alo ahi blo bhi queue and matching_blocks :: "match list"
    and x2 x1 x2a x1a x2b
  show "((a, b, b2j, queue, matching_blocks), a, b, b2j, (alo, ahi, blo, bhi) # queue, matching_blocks)
       \<in> measure (\<lambda>(a, b, b2j, queue, mbs). sum_list (map region_size queue))"
    by (auto simp: region_size_def)
qed


declare blocks_loop.simps [simp del]

text \<open>
  The loop that collapses adjacent blocks, with the state \<open>(i1, j1, k1)\<close> and
  \<open>non_adjacent\<close>. \<open>matching_blocks.sort()\<close> orders the triples lexicographically.
\<close>

fun collapse_loop :: "match list \<Rightarrow> match \<times> match list \<Rightarrow> match \<times> match list" where
  "collapse_loop [] st = st"
| "collapse_loop ((i2, j2, k2) # rest) ((i1, j1, k1), non_adjacent) =
     (if i1 + k1 = i2 \<and> j1 + k1 = j2 then collapse_loop rest ((i1, j1, k1 + k2), non_adjacent)
      else collapse_loop rest
             ((i2, j2, k2), (if k1 \<noteq> 0 then non_adjacent @ [(i1, j1, k1)] else non_adjacent)))"

definition get_matching_blocks :: "'a list \<Rightarrow> 'a list \<Rightarrow> error + match list" where
  "get_matching_blocks a b =
     (let la = len a; lb = len b
      in case blocks_loop a b (chain_b b) [(0, la, 0, lb)] [] of
           Inl e \<Rightarrow> Inl e
         | Inr matching_blocks \<Rightarrow>
             (let matching_blocks = sort matching_blocks;
                  ((i1, j1, k1), non_adjacent) = collapse_loop matching_blocks ((0, 0, 0), []);
                  non_adjacent = (if k1 \<noteq> 0 then non_adjacent @ [(i1, j1, k1)] else non_adjacent);
                  non_adjacent = non_adjacent @ [(la, lb, 0)]
              in Inr non_adjacent))"

text \<open>
  \<open>get_opcodes\<close>. The tags are the strings \<open>'replace'\<close>, \<open>'delete'\<close>, \<open>'insert'\<close> and
  \<open>'equal'\<close>; the variable \<open>tag\<close> is \<open>None\<close> where the source has the empty string.
  An opcode is \<open>(tag, i1, i2, j1, j2)\<close>.
\<close>

datatype tag = Replace | Delete | Insert | Equal

type_synonym opcode = "tag \<times> int \<times> int \<times> int \<times> int"

fun opcodes_loop :: "match list \<Rightarrow> int \<times> int \<Rightarrow> opcode list \<Rightarrow> opcode list" where
  "opcodes_loop [] (i, j) answer = answer"
| "opcodes_loop ((ai, bj, size') # rest) (i, j) answer =
     (let tag = (if i < ai \<and> j < bj then Some Replace
                 else if i < ai then Some Delete
                 else if j < bj then Some Insert
                 else None);
          answer = (case tag of Some t \<Rightarrow> answer @ [(t, i, ai, j, bj)] | None \<Rightarrow> answer);
          i = ai + size';
          j = bj + size';
          answer = (if size' \<noteq> 0 then answer @ [(Equal, ai, i, bj, j)] else answer)
      in opcodes_loop rest (i, j) answer)"

definition get_opcodes :: "'a list \<Rightarrow> 'a list \<Rightarrow> error + opcode list" where
  "get_opcodes a b =
     (case get_matching_blocks a b of
        Inl e \<Rightarrow> Inl e
      | Inr blocks \<Rightarrow> Inr (opcodes_loop blocks (0, 0) []))"

text \<open>
  The ranges of an opcode, and what it is for consecutive half-open intervals to
  partition \<open>[lo, hi)\<close>: the first begins at \<open>lo\<close>, each begins where the one before it
  ended, and the last ends at \<open>hi\<close>.
\<close>

definition rangeA :: "opcode \<Rightarrow> int \<times> int" where
  "rangeA opc = (case opc of (tag, i1, i2, j1, j2) \<Rightarrow> (i1, i2))"

definition rangeB :: "opcode \<Rightarrow> int \<times> int" where
  "rangeB opc = (case opc of (tag, i1, i2, j1, j2) \<Rightarrow> (j1, j2))"

fun partitions :: "(int \<times> int) list \<Rightarrow> int \<Rightarrow> int \<Rightarrow> bool" where
  "partitions [] lo hi = (lo = hi)"
| "partitions ((s, e) # rest) lo hi = (s = lo \<and> s \<le> e \<and> partitions rest e hi)"

text \<open>
  An opcode starts before another one: neither of its two starts is larger, and one of
  them is smaller.
\<close>

definition starts_before :: "opcode \<Rightarrow> opcode \<Rightarrow> bool" where
  "starts_before x y =
     (fst (rangeA x) \<le> fst (rangeA y) \<and> fst (rangeB x) \<le> fst (rangeB y) \<and>
      (fst (rangeA x) < fst (rangeA y) \<or> fst (rangeB x) < fst (rangeB y)))"

section \<open>Change synthesizer: the loop of \<open>diff_sections\<close>\<close>

text \<open>
  The loops \<open>for idx in range(i1, i2)\<close> of the \<open>delete\<close> and \<open>insert\<close> branches.
\<close>

fun removed_loop :: "pystr list \<Rightarrow> int list \<Rightarrow> Change list \<Rightarrow> error + Change list" where
  "removed_loop a_secs [] changes = Inr changes"
| "removed_loop a_secs (idx # rest) changes =
     (case py_index a_secs idx of
        Inl e \<Rightarrow> Inl e
      | Inr sec \<Rightarrow>
          removed_loop a_secs rest
            (changes @
             [\<lparr>ch_type = removed,
               ch_section = ascii ''Section '' @ str_int (idx + 1),
               ch_description = take 180 sec @ (if len sec > 180 then ascii ''...'' else []),
               ch_impact = ascii ''May remove obligations/rights present in earlier version.''\<rparr>]))"

fun added_loop :: "pystr list \<Rightarrow> int list \<Rightarrow> Change list \<Rightarrow> error + Change list" where
  "added_loop b_secs [] changes = Inr changes"
| "added_loop b_secs (idx # rest) changes =
     (case py_index b_secs idx of
        Inl e \<Rightarrow> Inl e
      | Inr sec \<Rightarrow>
          added_loop b_secs rest
            (changes @
             [\<lparr>ch_type = added,
               ch_section = ascii ''Section '' @ str_int (idx + 1),
               ch_description = take 180 sec @ (if len sec > 180 then ascii ''...'' else []),
               ch_impact = ascii ''Introduces new terms/obligations that weren'' @ [0x2019]
                 @ ascii ''t in the original.''\<rparr>]))"

text \<open>The loop of \<open>diff_sections\<close> over the opcodes.\<close>

fun changes_loop ::
  "pystr list \<Rightarrow> pystr list \<Rightarrow> opcode list \<Rightarrow> Change list \<Rightarrow> error + Change list" where
  "changes_loop a_secs b_secs [] changes = Inr changes"
| "changes_loop a_secs b_secs ((tag, i1, i2, j1, j2) # rest) changes =
     (case tag of
        Equal \<Rightarrow> changes_loop a_secs b_secs rest changes
      | Delete \<Rightarrow>
          (case removed_loop a_secs (py_range i1 i2) changes of
             Inl e \<Rightarrow> Inl e
           | Inr changes \<Rightarrow> changes_loop a_secs b_secs rest changes)
      | Insert \<Rightarrow>
          (case added_loop b_secs (py_range j1 j2) changes of
             Inl e \<Rightarrow> Inl e
           | Inr changes \<Rightarrow> changes_loop a_secs b_secs rest changes)
      | Replace \<Rightarrow>
          (let a_join = take 200 (str_join [32] (py_slice a_secs i1 i2));
               b_join = take 200 (str_join [32] (py_slice b_secs j1 j2))
           in changes_loop a_secs b_secs rest
                (changes @
                 [\<lparr>ch_type = modified,
                   ch_section = ascii ''Sections '' @ str_int (i1 + 1) @ ascii ''-'' @ str_int i2,
                   ch_description = ascii ''Changed from: '' @ [0x201C] @ a_join
                     @ [0x201D, 0x20, 0x2192, 0x20, 0x201C] @ b_join @ [0x201D] @ ascii ''.'',
                   ch_impact = ascii
                     ''Terms altered; review closely to confirm risk/obligation changes.''\<rparr>])))"

definition diff_sections :: "pystr \<Rightarrow> pystr \<Rightarrow> error + Change list" where
  "diff_sections a b =
     (let a_secs = split_sections a;
          b_secs = split_sections b
      in case get_opcodes a_secs b_secs of
           Inl e \<Rightarrow> Inl e
         | Inr opcodes \<Rightarrow>
             (case changes_loop a_secs b_secs opcodes [] of
                Inl e \<Rightarrow> Inl e
              | Inr changes \<Rightarrow> Inr (take 100 changes)))"


section \<open>The change synthesizer as the specification words it\<close>

text \<open>
  A second definition, written from the specification: nothing for \<open>equal\<close>; one
  \<open>removed\<close> Change per index of a \<open>delete\<close> opcode's range into A; one \<open>added\<close> Change
  per index of an \<open>insert\<close> opcode's range into B; one \<open>modified\<close> Change for a whole
  \<open>replace\<close> opcode.
\<close>

definition truncate_with_ellipsis :: "nat \<Rightarrow> pystr \<Rightarrow> pystr" where
  "truncate_with_ellipsis n s = (if length s > n then take n s @ ascii ''...'' else s)"

definition section_label :: "int \<Rightarrow> pystr" where
  "section_label idx = ascii ''Section '' @ str_int (idx + 1)"

definition removed_change :: "pystr list \<Rightarrow> int \<Rightarrow> Change" where
  "removed_change A idx =
     \<lparr>ch_type = removed, ch_section = section_label idx,
      ch_description = truncate_with_ellipsis 180 (A ! nat idx),
      ch_impact = ascii ''May remove obligations/rights present in earlier version.''\<rparr>"

definition added_change :: "pystr list \<Rightarrow> int \<Rightarrow> Change" where
  "added_change B idx =
     \<lparr>ch_type = added, ch_section = section_label idx,
      ch_description = truncate_with_ellipsis 180 (B ! nat idx),
      ch_impact = ascii ''Introduces new terms/obligations that weren'' @ [0x2019]
        @ ascii ''t in the original.''\<rparr>"

definition texts_in_range :: "pystr list \<Rightarrow> int \<Rightarrow> int \<Rightarrow> pystr list" where
  "texts_in_range A i1 i2 = map (\<lambda>idx. A ! nat idx) [i1..i2 - 1]"

definition modified_change :: "pystr list \<Rightarrow> pystr list \<Rightarrow> int \<Rightarrow> int \<Rightarrow> int \<Rightarrow> int \<Rightarrow> Change" where
  "modified_change A B i1 i2 j1 j2 =
     \<lparr>ch_type = modified,
      ch_section = ascii ''Sections '' @ str_int (i1 + 1) @ ascii ''-'' @ str_int i2,
      ch_description = ascii ''Changed from: '' @ [0x201C]
        @ take 200 (str_join (ascii '' '') (texts_in_range A i1 i2))
        @ [0x201D] @ ascii '' '' @ [0x2192] @ ascii '' '' @ [0x201C]
        @ take 200 (str_join (ascii '' '') (texts_in_range B j1 j2))
        @ [0x201D] @ ascii ''.'',
      ch_impact = ascii ''Terms altered; review closely to confirm risk/obligation changes.''\<rparr>"

fun spec_changes :: "pystr list \<Rightarrow> pystr list \<Rightarrow> opcode \<Rightarrow> Change list" where
  "spec_changes A B (Equal, i1, i2, j1, j2) = []"
| "spec_changes A B (Delete, i1, i2, j1, j2) = map (removed_change A) [i1..i2 - 1]"
| "spec_changes A B (Insert, i1, i2, j1, j2) = map (added_change B) [j1..j2 - 1]"
| "spec_changes A B (Replace, i1, i2, j1, j2) = [modified_change A B i1 i2 j1 j2]"

definition synthesize_spec :: "pystr list \<Rightarrow> pystr list \<Rightarrow> opcode list \<Rightarrow> Change list" where
  "synthesize_spec A B opcodes = concat (map (spec_changes A B) opcodes)"

text \<open>An opcode's ranges are ranges into A and into B.\<close>

definition opcode_in_range :: "'a list \<Rightarrow> 'a list \<Rightarrow> opcode \<Rightarrow> bool" where
  "opcode_in_range A B opc =
     (case opc of (tag, i1, i2, j1, j2) \<Rightarrow>
        0 \<le> i1 \<and> i1 \<le> i2 \<and> i2 \<le> len A \<and> 0 \<le> j1 \<and> j1 \<le> j2 \<and> j2 \<le> len B)"


section \<open>Endpoints: \<open>analyze\<close> and \<open>compare\<close>\<close>

text \<open>
  What the endpoints take from outside the repository: the configuration read from the
  process environment at start-up, \<open>str.lower\<close>, the three decoders, and the call of the
  language model. \<open>chain_invoke model text\<close> stands for building the chain for \<open>model\<close>,
  invoking it on the document text and validating the result as \<open>_LLMOut\<close>; it yields
  the text of the exception raised (\<open>Inl\<close>) or the validated output.
\<close>

record LLMOut =
  lo_summary :: pystr
  lo_obligations :: "Obligation list"
  lo_risks :: "Risk list"
  lo_clauses :: "Clause list"
  lo_tags :: "pystr list"

record env =
  MAX_CHARS :: int
  PRIMARY_MODEL :: pystr
  FALLBACK_MODEL :: pystr
  str_lower :: "pystr \<Rightarrow> pystr"
  pdf_reader :: pdf_decoder
  docx_document :: docx_decoder
  utf8_decode_ignore :: "bytes \<Rightarrow> pystr"
  chain_invoke :: "pystr \<Rightarrow> pystr \<Rightarrow> pystr + LLMOut"

text \<open>An uploaded file: its \<open>filename\<close> and what \<open>await up.read()\<close> returns.\<close>

record UploadFile =
  filename :: "pystr option"
  read_bytes :: bytes

text \<open>\<open>(up.filename or "").lower()\<close>\<close>

definition upload_name :: "env \<Rightarrow> UploadFile \<Rightarrow> pystr" where
  "upload_name env up = str_lower env (case filename up of None \<Rightarrow> [] | Some n \<Rightarrow> n)"

definition is_quota_error :: "(pystr \<Rightarrow> pystr) \<Rightarrow> pystr \<Rightarrow> bool" where
  "is_quota_error lower e =
     (let s = lower e
      in str_contains s (ascii ''resourceexhausted'') \<or> str_contains s (ascii ''quota'')
         \<or> str_contains s (ascii ''429''))"

text \<open>
  \<open>round(n / 1024)\<close> for \<open>n = len(raw)\<close>: the quotient is exact in floating point for
  every length below \<open>2^53\<close>, and \<open>round\<close> rounds a half to the even neighbour.
\<close>

definition round_div_1024 :: "int \<Rightarrow> int" where
  "round_div_1024 n =
     (let q = n div 1024; r = n mod 1024
      in if r < 512 then q else if r > 512 then q + 1 else if even q then q else q + 1)"

text \<open>\<open>list(dict.fromkeys(xs))\<close>: the first occurrence of every element, in order.\<close>

fun dict_fromkeys :: "'a list \<Rightarrow> 'a list \<Rightarrow> 'a list" where
  "dict_fromkeys seen [] = seen"
| "dict_fromkeys seen (x # xs) =
     (if x \<in> set seen then dict_fromkeys seen xs else dict_fromkeys (seen @ [x]) xs)"

text \<open>
  The \<open>if/elif\<close> chain of \<open>analyze\<close> on the lower-cased file name: it sets \<open>text\<close>,
  \<open>page_offsets\<close>, \<open>pages\<close> and \<open>ftype\<close>, the second and third of which start as \<open>[]\<close>
  and \<open>1\<close>.
\<close>

definition analyze_extract ::
  "env \<Rightarrow> pystr \<Rightarrow> bytes \<Rightarrow> error + (pystr \<times> int list \<times> int \<times> file_type)" where
  "analyze_extract env name raw =
     (let page_offsets = []; pages = 1
      in if str_endswith name (ascii ''.pdf'') then
           (case read_pdf_and_offsets (pdf_reader env) raw of
              Inl e \<Rightarrow> Inl e
            | Inr (text, page_offsets, pages) \<Rightarrow> Inr (text, page_offsets, pages, pdf))
         else if str_endswith name (ascii ''.docx'') then
           (case read_docx (docx_document env) raw of
              Inl e \<Rightarrow> Inl e
            | Inr text \<Rightarrow> Inr (text, page_offsets, pages, docx))
         else if str_endswith name (ascii ''.txt'') then
           Inr (utf8_decode_ignore env raw, page_offsets, pages, txt)
         else Inl (HTTPException 400 (ascii ''Unsupported file. Upload PDF/DOCX/TXT.'')))"

text \<open>The \<open>try\<close> block of \<open>analyze\<close> around the language model, with its fallback.\<close>

definition analyze_llm :: "env \<Rightarrow> pystr \<Rightarrow> error + LLMOut" where
  "analyze_llm env text =
     (case chain_invoke env (PRIMARY_MODEL env) text of
        Inr out \<Rightarrow> Inr out
      | Inl e \<Rightarrow>
          if is_quota_error (str_lower env) e then
            (case chain_invoke env (FALLBACK_MODEL env) text of
               Inr out \<Rightarrow> Inr out
             | Inl e2 \<Rightarrow>
                 if is_quota_error (str_lower env) e2 then
                   Inl (HTTPException 429 (ascii
                     ''Gemini API quota exceeded. Enable billing/increase quota, or try a different model/key.''))
                 else Inl (HTTPException 500 (ascii ''AI processing failed (fallback).'')))
          else Inl (HTTPException 500 (ascii ''AI processing failed.'')))"

definition analyze :: "env \<Rightarrow> UploadFile option \<Rightarrow> UploadFile option \<Rightarrow> error + AnalysisReport" where
  "analyze env document file =
     (case (case document of Some d \<Rightarrow> Some d | None \<Rightarrow> file) of
        None \<Rightarrow> Inl (HTTPException 400 (ascii ''No file uploaded.''))
      | Some up \<Rightarrow>
          (let raw = read_bytes up;
               name = upload_name env up
           in case analyze_extract env name raw of
                Inl e \<Rightarrow> Inl e
              | Inr (text, page_offsets, pages, ftype) \<Rightarrow>
                  (let text = str_strip text
                   in if text = [] then
                        Inl (HTTPException 400
                          (ascii ''Could not extract any text from the document.''))
                      else
                        (let text = (if len text > MAX_CHARS env
                                     then py_slice_to text (MAX_CHARS env) else text);
                             size_kb = str_int (round_div_1024 (len raw)) @ ascii '' KB''
                         in case analyze_llm env text of
                              Inl e \<Rightarrow> Inl e
                            | Inr out \<Rightarrow>
                                (let overall = classify_overall_risk (lo_risks out);
                                     highlights = build_highlights (str_lower env) text
                                       (lo_obligations out) (lo_risks out) (lo_clauses out)
                                 in Inr \<lparr>ar_summary = lo_summary out,
                                         ar_obligations = lo_obligations out,
                                         ar_risks = lo_risks out,
                                         ar_clauses = lo_clauses out,
                                         ar_riskLevel = overall,
                                         ar_tags = take 6 (dict_fromkeys [] (lo_tags out)),
                                         ar_size = size_kb,
                                         ar_type = ftype,
                                         ar_pages = pages,
                                         ar_analyzedText = text,
                                         ar_pageOffsets = page_offsets,
                                         ar_highlights = highlights\<rparr>)))))"

text \<open>
  The inner function \<open>extract\<close> of \<open>compare\<close>, and \<open>fileA.filename or "Version A"\<close>.
\<close>

definition "extract" :: "env \<Rightarrow> pystr \<Rightarrow> bytes \<Rightarrow> error + pystr" where
  "extract env name raw =
     (if str_endswith name (ascii ''.pdf'') then
        (case read_pdf_and_offsets (pdf_reader env) raw of
           Inl e \<Rightarrow> Inl e
         | Inr (text, offsets, n) \<Rightarrow> Inr text)
      else if str_endswith name (ascii ''.docx'') then read_docx (docx_document env) raw
      else if str_endswith name (ascii ''.txt'') then Inr (utf8_decode_ignore env raw)
      else Inl (HTTPException 400
             (ascii ''Unsupported type for '' @ name @ ascii ''. Use PDF/DOCX/TXT.'')))"

definition version_title :: "UploadFile \<Rightarrow> pystr \<Rightarrow> pystr" where
  "version_title f other =
     (case filename f of None \<Rightarrow> other | Some n \<Rightarrow> if n = [] then other else n)"

definition compare :: "env \<Rightarrow> UploadFile \<Rightarrow> UploadFile \<Rightarrow> error + ComparisonReport" where
  "compare env fileA fileB =
     (let rawA = read_bytes fileA;
          rawB = read_bytes fileB;
          nameA = upload_name env fileA;
          nameB = upload_name env fileB
      in case extract env nameA rawA of
           Inl e \<Rightarrow> Inl e
         | Inr ta \<Rightarrow>
             (let a_text = str_strip ta
              in case extract env nameB rawB of
                   Inl e \<Rightarrow> Inl e
                 | Inr tb \<Rightarrow>
                     (let b_text = str_strip tb
                      in if a_text = [] \<and> b_text = [] then
                           Inl (HTTPException 400
                             (ascii ''Could not extract text from either file.''))
                         else
                           (let a_text = py_slice_to a_text (MAX_CHARS env);
                                b_text = py_slice_to b_text (MAX_CHARS env)
                            in case diff_sections a_text b_text of
                                 Inl e \<Rightarrow> Inl e
                               | Inr changes \<Rightarrow>
                                   Inr \<lparr>cr_versionA =
                                          \<lparr>v_title = version_title fileA (ascii ''Version A''),
                                           v_content = a_text\<rparr>,
                                        cr_versionB =
                                          \<lparr>v_title = version_title fileB (ascii ''Version B''),
                                           v_content = b_text\<rparr>,
                                        cr_changes = changes\<rparr>))))"

text \<open>
  A configuration to run the endpoints on: the defaults of the service, \<open>lower_sample\<close>
  for \<open>str.lower\<close>, decoders that return fixed pages and paragraphs, the decoding of
  ASCII bytes, and a language model that returns an empty analysis.
\<close>

definition sample_env :: env where
  "sample_env =
     \<lparr>MAX_CHARS = 60000,
      PRIMARY_MODEL = ascii ''gemini-1.5-flash'',
      FALLBACK_MODEL = ascii ''gemini-1.5-pro'',
      str_lower = lower_sample,
      pdf_reader = (\<lambda>b. Inr [Inr (Some (ascii ''ab'')), Inr (Some (ascii ''cd''))]),
      docx_document = (\<lambda>b. Inr [ascii ''ab'', ascii ''cd'']),
      utf8_decode_ignore = map of_char,
      chain_invoke = (\<lambda>model text. Inr \<lparr>lo_summary = ascii ''s'', lo_obligations = [],
        lo_risks = [], lo_clauses = [], lo_tags = []\<rparr>)\<rparr>"

section \<open>Properties of the offset extractor\<close>

lemma ascii_simps [simp]:
  "ascii [] = []"
  "ascii (c # s) = of_char c # ascii s"
  by (simp_all add: ascii_def)

text \<open>
  What does hold of the offsets of \<open>read_pdf_and_offsets\<close>: offset \<open>i\<close> is the sum of the
  lengths of the page texts before page \<open>i\<close>, and page \<open>i\<close> begins \<open>i\<close> code points
  later in the returned text, after the \<open>i\<close> separators.
\<close>

lemma pdf_pages_loop_eq:
  "pdf_pages_loop ps offsets chunks tot = Inr (offsets', chunks') \<Longrightarrow>
   \<exists>cs. chunks' = chunks @ cs \<and> length cs = length ps
      \<and> offsets' = offsets @ map (\<lambda>i. tot + sum_list (map len (take i cs))) [0..<length cs]"
proof (induction ps arbitrary: offsets chunks tot)
  case Nil
  then show ?case by simp
next
  case (Cons p ps)
  from Cons.prems obtain r where p: "p = Inr r" by (cases p) auto
  define t where "t = (case r of None \<Rightarrow> [] | Some s \<Rightarrow> s)"
  from Cons.prems have "pdf_pages_loop ps (offsets @ [tot]) (chunks @ [t]) (tot + len t)
      = Inr (offsets', chunks')"
    by (simp add: p t_def Let_def)
  from Cons.IH[OF this] obtain cs where cs: "chunks' = (chunks @ [t]) @ cs" "length cs = length ps"
    "offsets' = (offsets @ [tot])
       @ map (\<lambda>i. tot + len t + sum_list (map len (take i cs))) [0..<length cs]"
    by blast
  have "map (\<lambda>i. tot + sum_list (map len (take i (t # cs)))) [0..<length (t # cs)]
      = tot # map (\<lambda>i. tot + len t + sum_list (map len (take i cs))) [0..<length cs]"
    by (simp add: upt_conv_Cons map_Suc_upt[symmetric] del: upt_Suc)
  with cs show ?case
    by (intro exI[of _ "t # cs"]) simp
qed

lemma read_pdf_and_offsets_offsets:
  assumes "read_pdf_and_offsets PdfReader b = Inr (text, offsets, n)"
  shows "\<exists>chunks. text = str_join [10] chunks \<and> n = len chunks
     \<and> offsets = map (\<lambda>i. sum_list (map len (take i chunks))) [0..<length chunks]"
proof -
  from assms obtain r_pages where r: "PdfReader b = Inr r_pages"
    by (auto simp: read_pdf_and_offsets_def split: sum.splits)
  with assms obtain chunks where l: "pdf_pages_loop r_pages [] [] 0 = Inr (offsets, chunks)"
    and t: "text = str_join [10] chunks" "n = len r_pages"
    by (auto simp: read_pdf_and_offsets_def split: sum.splits)
  from pdf_pages_loop_eq[OF l] t show ?thesis by (auto simp: len_def)
qed

lemma str_join_page_start:
  "i < length chunks \<Longrightarrow>
   take (length (chunks ! i)) (drop (sum_list (map length (take i chunks)) + i) (str_join [c] chunks))
     = chunks ! i"
proof (induction chunks arbitrary: i)
  case Nil
  then show ?case by simp
next
  case (Cons x xs)
  show ?case
  proof (cases i)
    case 0
    then show ?thesis by (cases xs) simp_all
  next
    case (Suc k)
    with Cons.prems have k: "k < length xs" by simp
    then obtain y ys where xs: "xs = y # ys" by (cases xs) auto
    from Cons.IH[OF k] show ?thesis
      by (simp add: Suc xs)
  qed
qed

lemma sum_len: "sum_list (map len xs) = int (sum_list (map length xs))"
  by (induction xs) (simp_all add: len_def)

lemma nat_sum_len: "nat (sum_list (map len xs)) = sum_list (map length xs)"
  by (simp add: sum_len)

lemma read_pdf_and_offsets_page_start:
  assumes "read_pdf_and_offsets PdfReader b = Inr (text, offsets, n)"
  shows "\<exists>chunks. text = str_join [10] chunks \<and> length offsets = length chunks
     \<and> (\<forall>i < length chunks.
           take (length (chunks ! i)) (drop (nat (offsets ! i) + i) text) = chunks ! i)"
proof -
  from read_pdf_and_offsets_offsets[OF assms] obtain chunks where
    c: "text = str_join [10] chunks"
    "offsets = map (\<lambda>i. sum_list (map len (take i chunks))) [0..<length chunks]"
    by blast
  have "take (length (chunks ! i)) (drop (nat (offsets ! i) + i) text) = chunks ! i"
    if "i < length chunks" for i
    using that str_join_page_start[OF that, of 10] by (simp add: c nat_sum_len)
  with c show ?thesis by (intro exI[of _ chunks]) simp
qed

text \<open>
  C1. The claim: page \<open>i\<close>'s text begins at index \<open>pageOffsets[i]\<close> of the returned
  text, the offsets counting one separator per preceding page boundary. On the two
  pages \<open>ab\<close> and \<open>cd\<close> the function returns the text \<open>ab\ncd\<close> with the offsets
  \<open>[0, 2]\<close>: the running total counts the page texts only, so the second offset points
  at the separator, and the second page begins at index 3.
\<close>

theorem read_pdf_and_offsets_two_pages:
  "read_pdf_and_offsets (\<lambda>b. Inr [Inr (Some (ascii ''ab'')), Inr (Some (ascii ''cd''))]) []
     = Inr (ascii ''ab'' @ [10] @ ascii ''cd'', [0, 2], 2)
   \<and> drop 2 (ascii ''ab'' @ [10] @ ascii ''cd'') = 10 # ascii ''cd''
   \<and> drop 3 (ascii ''ab'' @ [10] @ ascii ''cd'') = ascii ''cd''"
  by (simp add: read_pdf_and_offsets_def len_def)

section \<open>Properties of the snippet locator\<close>

lemma add_cases:
  "add lower text hl kind snippet c = hl \<or>
   (\<exists>h. add lower text hl kind snippet c = hl @ [h] \<and> len (hl_text h) = hl_rangeEnd h - hl_rangeStart h
      \<and> length (hl_text h) \<le> 160 \<and> 0 \<le> hl_rangeStart h
      \<and> hl_rangeStart h = str_find (lower text) (lower (hl_text h)))"
  by (simp add: add_def Let_def)

text \<open>
  What does hold of every Highlight: its text has the length of its range and at most
  160 code points, and its start is where \<open>find\<close> locates the lower-cased text in the
  lower-cased analyzed text.
\<close>

definition highlight_ok :: "(pystr \<Rightarrow> pystr) \<Rightarrow> pystr \<Rightarrow> Highlight \<Rightarrow> bool" where
  "highlight_ok lower text h =
     (len (hl_text h) = hl_rangeEnd h - hl_rangeStart h \<and> length (hl_text h) \<le> 160
      \<and> 0 \<le> hl_rangeStart h
      \<and> hl_rangeStart h = str_find (lower text) (lower (hl_text h)))"

lemma add_ok:
  "\<forall>h \<in> set hl. highlight_ok lower text h \<Longrightarrow>
   \<forall>h \<in> set (add lower text hl kind snippet c). highlight_ok lower text h"
  using add_cases[of lower "text" hl kind snippet c] by (auto simp: highlight_ok_def)

lemma foldl_add_ok:
  "\<forall>h \<in> set hl. highlight_ok lower text h \<Longrightarrow>
   \<forall>h \<in> set (foldl (\<lambda>hl x. add lower text hl kind (g x) (c x)) hl xs). highlight_ok lower text h"
proof (induction xs arbitrary: hl)
  case Nil
  then show ?case by simp
next
  case (Cons x xs)
  from Cons.IH[OF add_ok[OF Cons.prems]] show ?case by simp
qed

lemma build_highlights_ok:
  "h \<in> set (build_highlights lower text obligations risks clauses) \<Longrightarrow> highlight_ok lower text h"
proof -
  have 0: "\<forall>h \<in> set ([] :: Highlight list). highlight_ok lower text h" by simp
  note 1 = foldl_add_ok[OF 0, of obligation ob_text "\<lambda>ob. Some (ob_clause ob)" obligations]
  note 2 = foldl_add_ok[OF 1, of risk rk_text "\<lambda>r. Some (rk_clause r)" risks]
  note 3 = foldl_add_ok[OF 2, of clause
      "\<lambda>c. if cl_description c \<noteq> [] then cl_description c else cl_name c" "\<lambda>c. None" clauses]
  assume "h \<in> set (build_highlights lower text obligations risks clauses)"
  with 3 show ?thesis by (simp add: build_highlights_def Let_def)
qed

lemma str_find_found:
  "0 \<le> str_find s q \<Longrightarrow>
   take (length q) (drop (nat (str_find s q)) s) = q \<and> nat (str_find s q) + length q \<le> length s"
proof (induction s)
  case Nil
  then show ?case by (simp split: if_splits)
next
  case (Cons c s)
  show ?case
  proof (cases "take (length q) (c # s) = q")
    case True
    then have "length (take (length q) (c # s)) = length q" by simp
    then have "length q \<le> length (c # s)" by (simp del: take_Suc_Cons)
    with True show ?thesis by simp
  next
    case False
    with Cons.prems have r: "0 \<le> str_find s q" "str_find (c # s) q = str_find s q + 1"
      by (auto simp: Let_def split: if_splits)
    from Cons.IH[OF r(1)] r show ?thesis by (simp add: nat_add_distrib)
  qed
qed

text \<open>
  When lower-casing maps code point by code point, so that it keeps every length, the
  analyzed text over the range of a Highlight is the Highlight's text up to case.
\<close>

lemma highlight_ok_charwise:
  assumes "highlight_ok (map f) text h"
  shows "map f (py_slice text (hl_rangeStart h) (hl_rangeEnd h)) = map f (hl_text h)"
proof -
  let ?i = "str_find (map f text) (map f (hl_text h))"
  from assms have i: "hl_rangeStart h = ?i" "0 \<le> ?i" "hl_rangeEnd h = ?i + len (hl_text h)"
    by (auto simp: highlight_ok_def)
  from str_find_found[OF i(2)] have
    t: "take (length (hl_text h)) (drop (nat ?i) (map f text)) = map f (hl_text h)"
    and b: "nat ?i + length (hl_text h) \<le> length text"
    by simp_all
  have "py_slice text ?i (?i + len (hl_text h)) = take (length (hl_text h)) (drop (nat ?i) text)"
    using i(2) b by (simp add: py_slice_def py_slice_bound_def len_def nat_add_distrib)
  with t show ?thesis by (simp add: i take_map drop_map)
qed

text \<open>
  C3. The claim: a candidate whose text is empty after stripping yields no Highlight.
  \<open>add\<close> tests the snippet for emptiness before it strips it. For the obligation whose
  text is three spaces the test passes, the stripped snippet is empty, \<open>find\<close> returns 0
  for the empty string, and a Highlight with empty text over the range \<open>[0, 0)\<close> is
  emitted.
\<close>

theorem build_highlights_blank_snippet:
  "build_highlights lower_sample (ascii ''abc'')
     [\<lparr>ob_text = ascii ''   '', ob_clause = ascii ''x''\<rparr>] [] []
   = [\<lparr>hl_kind = obligation, hl_clause = Some (ascii ''x''), hl_text = [],
        hl_rangeStart = 0, hl_rangeEnd = 0\<rparr>]"
  by (simp add: build_highlights_def add_def str_strip_def isspace_def lower_sample_def
      lower_cp_def len_def Let_def)

text \<open>
  C6. The claim: the analyzed text over \<open>[rangeStart, rangeEnd)\<close> equals the Highlight's
  text case-insensitively. The index is found in \<open>text.lower()\<close> and reported as an index
  into \<open>text\<close>. The analyzed text U+0130 \<open>a b\<close> has three code points and its lower case
  has four; the snippet \<open>ab\<close> is found at index 2 of the lower case, and the analyzed
  text over \<open>[2, 4)\<close> is \<open>b\<close>.
\<close>

theorem build_highlights_dotted_capital_I:
  "build_highlights lower_sample ([0x130] @ ascii ''ab'')
     [\<lparr>ob_text = ascii ''ab'', ob_clause = ascii ''x''\<rparr>] [] []
   = [\<lparr>hl_kind = obligation, hl_clause = Some (ascii ''x''), hl_text = ascii ''ab'',
        hl_rangeStart = 2, hl_rangeEnd = 4\<rparr>]
   \<and> py_slice ([0x130] @ ascii ''ab'') 2 4 = ascii ''b''
   \<and> lower_sample (ascii ''b'') \<noteq> lower_sample (ascii ''ab'')"
  by (simp add: build_highlights_def add_def str_strip_def isspace_def lower_sample_def
      lower_cp_def len_def py_slice_def py_slice_bound_def Let_def)

section \<open>Properties of the change synthesizer\<close>

lemma py_index_in_range: "0 \<le> i \<Longrightarrow> i < len xs \<Longrightarrow> py_index xs i = Inr (xs ! nat i)"
  by (simp add: py_index_def)

lemma py_slice_in_range:
  assumes "0 \<le> i1" "i1 \<le> i2" "i2 \<le> len xs"
  shows "py_slice xs i1 i2 = map (\<lambda>idx. xs ! nat idx) [i1..i2 - 1]"
proof -
  have b: "py_slice_bound xs i1 = min (length xs) (nat i1)"
    using assms by (simp add: py_slice_bound_def)
  show ?thesis
  proof (cases "i1 < i2")
    case False
    then have "py_slice_bound xs i2 \<le> py_slice_bound xs i1"
      using assms by (auto simp: py_slice_bound_def len_def)
    with False show ?thesis by (simp add: py_slice_def)
  next
    case True
    then have b2: "py_slice_bound xs i2 = nat i2" "py_slice_bound xs i1 = nat i1"
      using assms by (auto simp: py_slice_bound_def len_def)
    have "length (py_slice xs i1 i2) = nat (i2 - i1)"
      using assms True by (auto simp: py_slice_def b2 len_def)
    moreover have "\<And>n. n < nat (i2 - i1) \<Longrightarrow> py_slice xs i1 i2 ! n = xs ! nat ([i1..i2 - 1] ! n)"
      using assms True by (auto simp: py_slice_def b2 len_def nat_add_distrib)
    ultimately show ?thesis
      by (intro nth_equalityI) auto
  qed
qed

lemma truncate_with_ellipsis_180:
  "take 180 sec @ (if len sec > 180 then ascii ''...'' else []) = truncate_with_ellipsis 180 sec"
  by (simp add: truncate_with_ellipsis_def len_def)

lemma removed_loop_eq:
  "\<forall>idx \<in> set idxs. 0 \<le> idx \<and> idx < len A \<Longrightarrow>
   removed_loop A idxs changes = Inr (changes @ map (removed_change A) idxs)"
proof (induction idxs arbitrary: changes)
  case Nil
  then show ?case by simp
next
  case (Cons idx idxs)
  then have "py_index A idx = Inr (A ! nat idx)" by (simp add: py_index_in_range)
  with Cons show ?case
    by (simp add: removed_change_def section_label_def truncate_with_ellipsis_180 del: ascii_simps)
qed

lemma added_loop_eq:
  "\<forall>idx \<in> set idxs. 0 \<le> idx \<and> idx < len B \<Longrightarrow>
   added_loop B idxs changes = Inr (changes @ map (added_change B) idxs)"
proof (induction idxs arbitrary: changes)
  case Nil
  then show ?case by simp
next
  case (Cons idx idxs)
  then have "py_index B idx = Inr (B ! nat idx)" by (simp add: py_index_in_range)
  with Cons show ?case
    by (simp add: added_change_def section_label_def truncate_with_ellipsis_180 del: ascii_simps)
qed

lemma changes_loop_eq:
  "list_all (opcode_in_range A B) opcodes \<Longrightarrow>
   changes_loop A B opcodes changes = Inr (changes @ synthesize_spec A B opcodes)"
proof (induction opcodes arbitrary: changes)
  case Nil
  then show ?case by (simp add: synthesize_spec_def)
next
  case (Cons opc opcodes)
  obtain tag i1 i2 j1 j2 where opc: "opc = (tag, i1, i2, j1, j2)" by (cases opc) auto
  from Cons.prems have "opcode_in_range A B opc" and rest: "list_all (opcode_in_range A B) opcodes"
    by simp_all
  then have r: "0 \<le> i1" "i1 \<le> i2" "i2 \<le> len A" "0 \<le> j1" "j1 \<le> j2" "j2 \<le> len B"
    by (simp_all add: opc opcode_in_range_def)
  note IH = Cons.IH[OF rest]
  have tail: "\<And>x. synthesize_spec A B (x # opcodes) = spec_changes A B x @ synthesize_spec A B opcodes"
    by (simp add: synthesize_spec_def)
  show ?case
  proof (cases tag)
    case Equal
    then show ?thesis by (simp add: opc IH tail)
  next
    case Delete
    have "removed_loop A (py_range i1 i2) changes = Inr (changes @ map (removed_change A) [i1..i2 - 1])"
      unfolding py_range_def using r by (intro removed_loop_eq) auto
    then show ?thesis by (simp add: opc Delete IH tail)
  next
    case Insert
    have "added_loop B (py_range j1 j2) changes = Inr (changes @ map (added_change B) [j1..j2 - 1])"
      unfolding py_range_def using r by (intro added_loop_eq) auto
    then show ?thesis by (simp add: opc Insert IH tail)
  next
    case Replace
    show ?thesis
      using r
      by (simp add: opc Replace IH tail modified_change_def texts_in_range_def
          py_slice_in_range Let_def)
  qed
qed

text \<open>
  C7. On opcodes whose ranges lie in A and B, the loop of \<open>diff_sections\<close> over the
  opcodes raises nothing and produces the Changes the specification describes, in
  opcode order.
\<close>

theorem changes_loop_synthesize:
  "list_all (opcode_in_range A B) opcodes \<Longrightarrow>
   changes_loop A B opcodes [] = Inr (synthesize_spec A B opcodes)"
  by (simp add: changes_loop_eq)

theorem changes_loop_synthesize_witness:
  "list_all (opcode_in_range [ascii ''a'', ascii ''b'', ascii ''c''] [ascii ''b'', ascii ''x'', ascii ''y''])
     [(Delete, 0, 1, 0, 0), (Equal, 1, 2, 0, 1), (Replace, 2, 3, 1, 2), (Insert, 3, 3, 2, 3)]
   \<and> changes_loop [ascii ''a'', ascii ''b'', ascii ''c''] [ascii ''b'', ascii ''x'', ascii ''y'']
       [(Delete, 0, 1, 0, 0), (Equal, 1, 2, 0, 1), (Replace, 2, 3, 1, 2), (Insert, 3, 3, 2, 3)] []
     = Inr (synthesize_spec [ascii ''a'', ascii ''b'', ascii ''c''] [ascii ''b'', ascii ''x'', ascii ''y'']
       [(Delete, 0, 1, 0, 0), (Equal, 1, 2, 0, 1), (Replace, 2, 3, 1, 2), (Insert, 3, 3, 2, 3)])"
  using changes_loop_synthesize
    [of "[ascii ''a'', ascii ''b'', ascii ''c'']" "[ascii ''b'', ascii ''x'', ascii ''y'']"
      "[(Delete, 0, 1, 0, 0), (Equal, 1, 2, 0, 1), (Replace, 2, 3, 1, 2), (Insert, 3, 3, 2, 3)]"]
  by (simp add: opcode_in_range_def len_def)

section \<open>Properties of the sequence aligner\<close>

subsection \<open>\<open>find_longest_match\<close> raises nothing on a region of the two lists\<close>

lemma flm_outer_ok:
  "0 \<le> i \<Longrightarrow> h < len a \<Longrightarrow> \<exists>st'. flm_outer a b2j blo bhi [i..h] st = Inr st'"
proof (induction i h arbitrary: st rule: upto.induct)
  case (1 i h)
  obtain j2len best where st: "st = (j2len, best)" by (cases st)
  show ?case
  proof (cases "i \<le> h")
    case False
    then have "flm_outer a b2j blo bhi [i..h] st = Inr st" by (simp add: st)
    then show ?thesis by (rule exI)
  next
    case True
    have "py_index a i = Inr (a ! nat i)"
      using "1.prems" True by (simp add: py_index_in_range)
    moreover have "0 \<le> i + 1" using "1.prems" by simp
    ultimately show ?thesis
      using "1.IH"[OF True _ "1.prems"(2)] by (simp add: upto_rec1[OF True] st)
  qed
qed

lemma flm_outer_match_in:
  assumes "flm_outer a b2j blo bhi (py_range alo ahi) (Map.empty, (alo, blo, 0)) = Inr (j2len, best)"
  shows "match_in alo ahi blo bhi best"
proof (cases "alo \<le> ahi")
  case True
  have init: "match_in alo alo blo bhi (alo, blo, 0)" by (simp add: match_in_def)
  from flm_outer_inv[OF row_ok_empty init _ _ assms[unfolded py_range_def]] True
  show ?thesis by simp
next
  case False
  with assms have "best = (alo, blo, 0)" by (simp add: py_range_def)
  then show ?thesis by (simp add: match_in_def)
qed

lemma extend_left_ok:
  "match_in alo ahi blo bhi m \<Longrightarrow> 0 \<le> alo \<Longrightarrow> ahi \<le> len a \<Longrightarrow> 0 \<le> blo \<Longrightarrow> bhi \<le> len b
   \<Longrightarrow> \<exists>m'. extend_left a b alo blo m = Inr m'"
proof (induction a b alo blo m rule: extend_left.induct)
  case (1 a b alo blo besti bestj bestsize)
  note eq1 = extend_left.simps[of a b alo blo besti bestj bestsize]
  show ?case
  proof (cases "besti > alo \<and> bestj > blo")
    case False
    then show ?thesis by (auto simp: eq1)
  next
    case True
    with "1.prems" have rng: "0 \<le> besti - 1" "besti - 1 < len a" "0 \<le> bestj - 1" "bestj - 1 < len b"
      by (auto simp: match_in_def)
    then have xy: "py_index b (bestj - 1) = Inr (b ! nat (bestj - 1))"
      "py_index a (besti - 1) = Inr (a ! nat (besti - 1))"
      by (simp_all add: py_index_in_range)
    show ?thesis
    proof (cases "a ! nat (besti - 1) = b ! nat (bestj - 1)")
      case False
      with True xy show ?thesis by (auto simp: eq1)
    next
      case eq: True
      have "match_in alo ahi blo bhi (besti - 1, bestj - 1, bestsize + 1)"
        using "1.prems"(1) True by (auto simp: match_in_def)
      from "1.IH"[OF True xy(1) xy(2) eq this "1.prems"(2-5)] True xy eq
      show ?thesis by (auto simp: eq1)
    qed
  qed
qed

lemma extend_right_ok:
  "match_in alo ahi blo bhi m \<Longrightarrow> 0 \<le> alo \<Longrightarrow> ahi \<le> len a \<Longrightarrow> 0 \<le> blo \<Longrightarrow> bhi \<le> len b
   \<Longrightarrow> \<exists>m'. extend_right a b ahi bhi m = Inr m'"
proof (induction a b ahi bhi m rule: extend_right.induct)
  case (1 a b ahi bhi besti bestj bestsize)
  note eq1 = extend_right.simps[of a b ahi bhi besti bestj bestsize]
  show ?case
  proof (cases "besti + bestsize < ahi \<and> bestj + bestsize < bhi")
    case False
    then show ?thesis by (auto simp: eq1)
  next
    case True
    with "1.prems" have rng: "0 \<le> besti + bestsize" "besti + bestsize < len a"
      "0 \<le> bestj + bestsize" "bestj + bestsize < len b"
      by (auto simp: match_in_def)
    then have xy: "py_index b (bestj + bestsize) = Inr (b ! nat (bestj + bestsize))"
      "py_index a (besti + bestsize) = Inr (a ! nat (besti + bestsize))"
      by (simp_all add: py_index_in_range)
    show ?thesis
    proof (cases "a ! nat (besti + bestsize) = b ! nat (bestj + bestsize)")
      case False
      with True xy show ?thesis by (auto simp: eq1)
    next
      case eq: True
      have "match_in alo ahi blo bhi (besti, bestj, bestsize + 1)"
        using "1.prems"(1) True by (auto simp: match_in_def)
      from "1.IH"[OF True xy(1) xy(2) eq this "1.prems"(2-5)] True xy eq
      show ?thesis by (auto simp: eq1)
    qed
  qed
qed

lemma find_longest_match_ok:
  assumes "0 \<le> alo" "ahi \<le> len a" "0 \<le> blo" "bhi \<le> len b"
  shows "\<exists>m. find_longest_match a b b2j alo ahi blo bhi = Inr m"
proof -
  from flm_outer_ok[of alo "ahi - 1" a b2j blo bhi "(Map.empty, (alo, blo, 0))"] assms
  obtain j2len best where
    o: "flm_outer a b2j blo bhi (py_range alo ahi) (Map.empty, (alo, blo, 0)) = Inr (j2len, best)"
    by (auto simp: py_range_def)
  note m1 = flm_outer_match_in[OF o]
  from extend_left_ok[OF m1 assms] obtain best2 where l: "extend_left a b alo blo best = Inr best2"
    by auto
  note m2 = extend_left_inv[OF m1 l]
  from extend_right_ok[OF m2 assms] obtain m where "extend_right a b ahi bhi best2 = Inr m"
    by auto
  with o l have "find_longest_match a b b2j alo ahi blo bhi = Inr m"
    by (simp add: find_longest_match_def)
  then show ?thesis by (rule exI)
qed

subsection \<open>The matching blocks lie apart from each other\<close>

definition region_of :: "match \<Rightarrow> region" where
  "region_of m = (case m of (i, j, k) \<Rightarrow> (i, i + k, j, j + k))"

definition before :: "region \<Rightarrow> region \<Rightarrow> bool" where
  "before r s =
     (case r of (alo, ahi, blo, bhi) \<Rightarrow> case s of (alo', ahi', blo', bhi') \<Rightarrow>
        ahi \<le> alo' \<and> bhi \<le> blo')"

definition apart :: "region \<Rightarrow> region \<Rightarrow> bool" where
  "apart r s = (before r s \<or> before s r)"

definition inside :: "region \<Rightarrow> region \<Rightarrow> bool" where
  "inside r s =
     (case r of (alo, ahi, blo, bhi) \<Rightarrow> case s of (alo', ahi', blo', bhi') \<Rightarrow>
        alo' \<le> alo \<and> ahi \<le> ahi' \<and> blo' \<le> blo \<and> bhi \<le> bhi')"

definition proper :: "int \<Rightarrow> int \<Rightarrow> match \<Rightarrow> bool" where
  "proper la lb m = (case m of (i, j, k) \<Rightarrow> 0 < k \<and> 0 \<le> i \<and> i + k \<le> la \<and> 0 \<le> j \<and> j + k \<le> lb)"

definition blocks_inv :: "int \<Rightarrow> int \<Rightarrow> region list \<Rightarrow> match list \<Rightarrow> bool" where
  "blocks_inv la lb queue mbs =
     ((\<forall>r \<in> set queue. inside r (0, la, 0, lb)) \<and>
      sorted_wrt apart queue \<and>
      (\<forall>r \<in> set queue. \<forall>m \<in> set mbs. apart r (region_of m)) \<and>
      (\<forall>m \<in> set mbs. proper la lb m) \<and>
      sorted_wrt (\<lambda>x y. apart (region_of x) (region_of y)) mbs)"

lemma apart_sym: "apart r s \<Longrightarrow> apart s r"
  by (auto simp: apart_def)

lemma apart_inside: "apart r s \<Longrightarrow> inside x r \<Longrightarrow> apart x s"
  by (auto simp: apart_def before_def inside_def split: prod.splits)

lemma inside_trans: "inside x r \<Longrightarrow> inside r s \<Longrightarrow> inside x s"
  by (auto simp: inside_def split: prod.splits)

lemma blocks_inv_skip:
  "blocks_inv la lb (r # queue) mbs \<Longrightarrow> blocks_inv la lb queue mbs"
  by (simp add: blocks_inv_def)

lemma blocks_inv_step:
  assumes inv: "blocks_inv la lb ((alo, ahi, blo, bhi) # queue) mbs"
    and m: "match_in alo ahi blo bhi (i, j, k)" and k: "k \<noteq> 0"
  shows "blocks_inv la lb
     (if i + k < ahi \<and> j + k < bhi
      then (i + k, ahi, j + k, bhi) # (if alo < i \<and> blo < j then (alo, i, blo, j) # queue else queue)
      else (if alo < i \<and> blo < j then (alo, i, blo, j) # queue else queue))
     (mbs @ [(i, j, k)])"
proof -
  let ?R = "(alo, ahi, blo, bhi)" and ?R1 = "(alo, i, blo, j)" and ?R2 = "(i + k, ahi, j + k, bhi)"
  let ?M = "region_of (i, j, k)"
  from m k have b: "0 < k" "alo \<le> i" "i + k \<le> ahi" "blo \<le> j" "j + k \<le> bhi"
    by (auto simp: match_in_def)
  have in1: "inside ?R1 ?R" and in2: "inside ?R2 ?R" and inM: "inside ?M ?R"
    using b by (auto simp: inside_def region_of_def)
  have a12: "apart ?R2 ?R1" and a1M: "apart ?R1 ?M" and a2M: "apart ?R2 ?M"
    using b by (auto simp: apart_def before_def region_of_def)
  from inv have R: "inside ?R (0, la, 0, lb)"
    and Q1: "\<forall>r \<in> set queue. inside r (0, la, 0, lb)"
    and RQ: "\<forall>r \<in> set queue. apart ?R r"
    and Q2: "sorted_wrt apart queue"
    and RM: "\<forall>m \<in> set mbs. apart ?R (region_of m)"
    and Q3: "\<forall>r \<in> set queue. \<forall>m \<in> set mbs. apart r (region_of m)"
    and M1: "\<forall>m \<in> set mbs. proper la lb m"
    and M2: "sorted_wrt (\<lambda>x y. apart (region_of x) (region_of y)) mbs"
    by (simp_all add: blocks_inv_def)
  have pM: "proper la lb (i, j, k)"
    using R b by (auto simp: proper_def inside_def)
  have q1: "\<forall>r \<in> set queue. apart ?R1 r" "\<forall>r \<in> set queue. apart ?R2 r"
    "\<forall>r \<in> set queue. apart r ?M"
    using RQ in1 in2 inM by (blast intro: apart_inside apart_sym)+
  have m1: "\<forall>x \<in> set mbs. apart ?R1 (region_of x)" "\<forall>x \<in> set mbs. apart ?R2 (region_of x)"
    "\<forall>x \<in> set mbs. apart (region_of x) ?M"
    using RM in1 in2 inM by (blast intro: apart_inside apart_sym)+
  have i1: "inside ?R1 (0, la, 0, lb)" "inside ?R2 (0, la, 0, lb)"
    using in1 in2 R by (blast intro: inside_trans)+
  show ?thesis
    unfolding blocks_inv_def
    using Q1 Q2 Q3 M1 M2 pM q1 m1 i1 a12 a1M a2M
    by (simp add: sorted_wrt_append)
qed

lemma blocks_loop_inv:
  "blocks_inv (len a) (len b) queue mbs \<Longrightarrow>
   \<exists>res. blocks_loop a b b2j queue mbs = Inr res \<and> blocks_inv (len a) (len b) [] res"
proof (induction a b b2j queue mbs rule: blocks_loop.induct)
  case (1 a b b2j matching_blocks)
  then show ?case by (simp add: blocks_loop.simps)
next
  case (2 a b b2j alo ahi blo bhi queue matching_blocks)
  from "2.prems" have "inside (alo, ahi, blo, bhi) (0, len a, 0, len b)"
    by (simp add: blocks_inv_def)
  then have "\<exists>m. find_longest_match a b b2j alo ahi blo bhi = Inr m"
    by (intro find_longest_match_ok) (simp_all add: inside_def)
  then obtain i j k where f: "find_longest_match a b b2j alo ahi blo bhi = Inr (i, j, k)"
    by (metis prod_cases3)
  note m = find_longest_match_in[OF f]
  show ?case
  proof (cases "k \<noteq> 0")
    case True
    from "2.IH"(1)[OF f refl refl True refl refl refl blocks_inv_step[OF "2.prems" m True]]
    show ?thesis
      using f True by (simp add: blocks_loop.simps Let_def)
  next
    case False
    from "2.IH"(2)[OF f refl refl False blocks_inv_skip[OF "2.prems"]]
    show ?thesis
      using f False by (simp add: blocks_loop.simps)
  qed
qed


subsection \<open>Sorted, the matching blocks ascend in both lists\<close>

definition precedes :: "match \<Rightarrow> match \<Rightarrow> bool" where
  "precedes x y = before (region_of x) (region_of y)"

lemma sorted_wrt_sym_pairwise:
  assumes "\<And>x y. P x y \<Longrightarrow> P y x" "sorted_wrt P xs" "x \<in> set xs" "y \<in> set xs" "x \<noteq> y"
  shows "P x y"
  using assms(2-) by (induction xs) (auto intro: assms(1))

lemma sorted_wrt_irrefl_distinct:
  "sorted_wrt P xs \<Longrightarrow> \<forall>x \<in> set xs. \<not> P x x \<Longrightarrow> distinct xs"
  by (induction xs) auto

lemma proper_not_apart: "proper la lb m \<Longrightarrow> \<not> apart (region_of m) (region_of m)"
  by (auto simp: proper_def apart_def before_def region_of_def split: prod.splits)

lemma sorted_apart_precedes:
  assumes "sorted ys" "distinct ys" "\<forall>m \<in> set ys. proper la lb m"
    "\<forall>x \<in> set ys. \<forall>y \<in> set ys. x \<noteq> y \<longrightarrow> apart (region_of x) (region_of y)"
  shows "sorted_wrt precedes ys"
  using assms
proof (induction ys)
  case Nil
  then show ?case by simp
next
  case (Cons y ys)
  have "precedes y z" if z: "z \<in> set ys" for z
  proof -
    from Cons.prems(1) z have le: "y \<le> z" by simp
    from Cons.prems(2) z have ne: "y \<noteq> z" by auto
    with Cons.prems(4) z have ap: "apart (region_of y) (region_of z)" by simp
    from Cons.prems(3) z have pz: "proper la lb z" by simp
    obtain i j k where y: "y = (i, j, k)" by (cases y)
    obtain i' j' k' where z': "z = (i', j', k')" by (cases z)
    from le have "i \<le> i'" by (auto simp: y z' less_eq_prod_def)
    with ap pz show ?thesis
      by (auto simp: precedes_def apart_def before_def region_of_def proper_def y z')
  qed
  with Cons show ?case by simp
qed

lemma blocks_sorted:
  assumes "blocks_inv la lb [] res"
  shows "sorted_wrt precedes (sort res)" and "\<forall>m \<in> set (sort res). proper la lb m"
proof -
  from assms have M1: "\<forall>m \<in> set res. proper la lb m"
    and M2: "sorted_wrt (\<lambda>x y. apart (region_of x) (region_of y)) res"
    by (simp_all add: blocks_inv_def)
  from M1 show "\<forall>m \<in> set (sort res). proper la lb m" by simp
  have d: "distinct res"
    using M1 by (intro sorted_wrt_irrefl_distinct[OF M2]) (blast dest: proper_not_apart)
  have pw: "\<forall>x \<in> set res. \<forall>y \<in> set res. x \<noteq> y \<longrightarrow> apart (region_of x) (region_of y)"
    using sorted_wrt_sym_pairwise[OF _ M2] apart_sym by blast
  show "sorted_wrt precedes (sort res)"
    using d pw M1 by (intro sorted_apart_precedes[where la = la and lb = lb]) simp_all
qed

subsection \<open>The collapsed blocks and the opcodes\<close>

fun chain_to :: "int \<Rightarrow> int \<Rightarrow> int \<Rightarrow> int \<Rightarrow> match list \<Rightarrow> bool" where
  "chain_to la lb i j [] = (i \<le> la \<and> j \<le> lb)"
| "chain_to la lb i j ((ai, bj, k) # rest) =
     (i \<le> ai \<and> j \<le> bj \<and> 0 \<le> k \<and> chain_to la lb (ai + k) (bj + k) rest)"

lemma chain_to_mono: "chain_to la lb i j xs \<Longrightarrow> i' \<le> i \<Longrightarrow> j' \<le> j \<Longrightarrow> chain_to la lb i' j' xs"
  by (cases xs) auto

lemma precedes_chain:
  "sorted_wrt precedes xs \<Longrightarrow> \<forall>m \<in> set xs. proper la lb m \<Longrightarrow> 0 \<le> la \<Longrightarrow> 0 \<le> lb
   \<Longrightarrow> chain_to la lb 0 0 xs"
proof (induction xs)
  case Nil
  then show ?case by simp
next
  case (Cons x xs)
  obtain i j k where x: "x = (i, j, k)" by (cases x)
  from Cons.prems have px: "0 < k" "0 \<le> i" "i + k \<le> la" "0 \<le> j" "j + k \<le> lb"
    by (simp_all add: x proper_def)
  have "chain_to la lb (i + k) (j + k) xs"
  proof (cases xs)
    case Nil
    with px show ?thesis by simp
  next
    case (Cons y ys)
    obtain i' j' k' where y: "y = (i', j', k')" by (cases y)
    from Cons.prems(1) Cons have "precedes x y" by simp
    then have le: "i + k \<le> i'" "j + k \<le> j'"
      by (simp_all add: precedes_def before_def region_of_def x y)
    from Cons.IH Cons.prems have "chain_to la lb 0 0 xs" by simp
    with Cons y le show ?thesis by simp
  qed
  with px show ?case by (simp add: x)
qed

fun flush :: "match \<Rightarrow> match list" where
  "flush (i1, j1, k1) = (if k1 \<noteq> 0 then [(i1, j1, k1)] else [])"

fun collapsed :: "match \<Rightarrow> match list \<Rightarrow> match list" where
  "collapsed cur [] = flush cur"
| "collapsed (i1, j1, k1) ((i2, j2, k2) # rest) =
     (if i1 + k1 = i2 \<and> j1 + k1 = j2 then collapsed (i1, j1, k1 + k2) rest
      else flush (i1, j1, k1) @ collapsed (i2, j2, k2) rest)"

lemma collapse_loop_eq:
  "collapse_loop xs (cur, acc) = (cur', acc') \<Longrightarrow> acc' @ flush cur' = acc @ collapsed cur xs"
proof (induction xs arbitrary: cur acc)
  case Nil
  then show ?case by simp
next
  case (Cons x xs)
  obtain i1 j1 k1 where cur: "cur = (i1, j1, k1)" by (cases cur)
  obtain i2 j2 k2 where x: "x = (i2, j2, k2)" by (cases x)
  show ?case
  proof (cases "i1 + k1 = i2 \<and> j1 + k1 = j2")
    case True
    with Cons.prems have "collapse_loop xs ((i1, j1, k1 + k2), acc) = (cur', acc')"
      by (simp add: cur x)
    from Cons.IH[OF this] True show ?thesis by (simp add: cur x)
  next
    case False
    with Cons.prems have "collapse_loop xs ((i2, j2, k2),
        (if k1 \<noteq> 0 then acc @ [(i1, j1, k1)] else acc)) = (cur', acc')"
      by (auto simp: cur x)
    from Cons.IH[OF this] False show ?thesis by (auto simp: cur x)
  qed
qed

lemma collapsed_chain:
  "chain_to la lb i j (cur # xs) \<Longrightarrow> chain_to la lb i j (collapsed cur xs)"
proof (induction xs arbitrary: i j cur)
  case Nil
  obtain i1 j1 k1 where cur: "cur = (i1, j1, k1)" by (cases cur)
  with Nil show ?case by auto
next
  case (Cons x xs)
  obtain i1 j1 k1 where cur: "cur = (i1, j1, k1)" by (cases cur)
  obtain i2 j2 k2 where x: "x = (i2, j2, k2)" by (cases x)
  from Cons.prems have p: "i \<le> i1" "j \<le> j1" "0 \<le> k1" "i1 + k1 \<le> i2" "j1 + k1 \<le> j2" "0 \<le> k2"
    and r: "chain_to la lb (i2 + k2) (j2 + k2) xs"
    by (simp_all add: cur x)
  show ?case
  proof (cases "i1 + k1 = i2 \<and> j1 + k1 = j2")
    case True
    from True have e: "i1 + (k1 + k2) = i2 + k2" "j1 + (k1 + k2) = j2 + k2" by simp_all
    have "chain_to la lb i j ((i1, j1, k1 + k2) # xs)"
      using p r by (simp add: e)
    from Cons.IH[OF this] True show ?thesis by (simp add: cur x)
  next
    case False
    show ?thesis
    proof (cases "k1 = 0")
      case True
      have "chain_to la lb i j ((i2, j2, k2) # xs)" using p r True by simp
      from Cons.IH[OF this] False True show ?thesis by (auto simp: cur x)
    next
      case nz: False
      have "chain_to la lb (i1 + k1) (j1 + k1) ((i2, j2, k2) # xs)" using p r by simp
      from Cons.IH[OF this] False nz p show ?thesis by (auto simp: cur x)
    qed
  qed
qed

text \<open>The opcodes lead from \<open>(i, j)\<close> to \<open>(la, lb)\<close>, each of them over a non-empty range.\<close>

fun op_chain :: "opcode list \<Rightarrow> int \<Rightarrow> int \<Rightarrow> int \<Rightarrow> int \<Rightarrow> bool" where
  "op_chain [] i j la lb = (i = la \<and> j = lb)"
| "op_chain ((tag, i1, i2, j1, j2) # rest) i j la lb =
     (i1 = i \<and> j1 = j \<and> i1 \<le> i2 \<and> j1 \<le> j2 \<and> (i1 < i2 \<or> j1 < j2) \<and> op_chain rest i2 j2 la lb)"

lemma opcodes_loop_acc:
  "opcodes_loop bs (i, j) answer = answer @ opcodes_loop bs (i, j) []"
proof (induction bs arbitrary: i j answer)
  case Nil
  then show ?case by simp
next
  case (Cons x bs)
  obtain ai bj k where x: "x = (ai, bj, k)" by (cases x)
  show ?case
    unfolding x opcodes_loop.simps Let_def
    by (subst Cons.IH, subst (2) Cons.IH) (simp split: option.splits)
qed

lemma opcodes_chain:
  "chain_to la lb i j bs \<Longrightarrow> op_chain (opcodes_loop (bs @ [(la, lb, 0)]) (i, j) []) i j la lb"
proof (induction bs arbitrary: i j)
  case Nil
  then show ?case by (auto simp: Let_def)
next
  case (Cons x bs)
  obtain ai bj k where x: "x = (ai, bj, k)" by (cases x)
  from Cons.prems have p: "i \<le> ai" "j \<le> bj" "0 \<le> k"
    and r: "chain_to la lb (ai + k) (bj + k) bs"
    by (simp_all add: x)
  note IH = Cons.IH[OF r]
  show ?case
    unfolding x append_Cons opcodes_loop.simps Let_def
    by (subst opcodes_loop_acc) (use p IH in auto)
qed


lemma get_matching_blocks_chain:
  "\<exists>bs. get_matching_blocks a b = Inr (bs @ [(len a, len b, 0)]) \<and> chain_to (len a) (len b) 0 0 bs"
proof -
  have "blocks_inv (len a) (len b) [(0, len a, 0, len b)] []"
    by (simp add: blocks_inv_def inside_def)
  from blocks_loop_inv[OF this, of "chain_b b"] obtain res where
    res: "blocks_loop a b (chain_b b) [(0, len a, 0, len b)] [] = Inr res"
    and inv: "blocks_inv (len a) (len b) [] res"
    by auto
  obtain cur acc where c: "collapse_loop (sort res) ((0, 0, 0), []) = (cur, acc)"
    by (cases "collapse_loop (sort res) ((0, 0, 0), [])") auto
  obtain i1 j1 k1 where cur: "cur = (i1, j1, k1)" by (cases cur)
  from collapse_loop_eq[OF c] have e: "acc @ flush cur = collapsed (0, 0, 0) (sort res)" by simp
  have "get_matching_blocks a b = Inr ((acc @ flush cur) @ [(len a, len b, 0)])"
    by (simp add: get_matching_blocks_def Let_def res c cur)
  moreover have "chain_to (len a) (len b) 0 0 (collapsed (0, 0, 0) (sort res))"
  proof (rule collapsed_chain)
    have "chain_to (len a) (len b) 0 0 (sort res)"
      using blocks_sorted[OF inv] by (intro precedes_chain) (simp_all add: len_def)
    then show "chain_to (len a) (len b) 0 0 ((0, 0, 0) # sort res)" by simp
  qed
  ultimately show ?thesis unfolding e by blast
qed

lemma get_opcodes_chain:
  "\<exists>opcodes. get_opcodes a b = Inr opcodes \<and> op_chain opcodes 0 0 (len a) (len b)"
proof -
  from get_matching_blocks_chain[of a b] obtain bs where
    "get_matching_blocks a b = Inr (bs @ [(len a, len b, 0)])" "chain_to (len a) (len b) 0 0 bs"
    by blast
  then show ?thesis
    using opcodes_chain[of "len a" "len b" 0 0 bs] by (simp add: get_opcodes_def)
qed

lemma op_chain_le: "op_chain ops i j la lb \<Longrightarrow> i \<le> la \<and> j \<le> lb"
proof (induction ops arbitrary: i j)
  case Nil
  then show ?case by simp
next
  case (Cons opc ops)
  obtain tag i1 i2 j1 j2 where opc: "opc = (tag, i1, i2, j1, j2)" by (cases opc) auto
  from Cons.prems have "i \<le> i2" "j \<le> j2" "op_chain ops i2 j2 la lb"
    by (auto simp: opc)
  with Cons.IH[of i2 j2] show ?case by simp
qed

lemma op_chain_starts_ge:
  "op_chain ops i j la lb \<Longrightarrow> opc \<in> set ops \<Longrightarrow> i \<le> fst (rangeA opc) \<and> j \<le> fst (rangeB opc)"
  by (induction ops arbitrary: i j) (fastforce simp: rangeA_def rangeB_def)+

lemma op_chain_partitions:
  "op_chain ops i j la lb \<Longrightarrow> partitions (map rangeA ops) i la \<and> partitions (map rangeB ops) j lb"
  by (induction ops arbitrary: i j) (auto simp: rangeA_def rangeB_def)

lemma op_chain_sorted: "op_chain ops i j la lb \<Longrightarrow> sorted_wrt starts_before ops"
proof (induction ops arbitrary: i j)
  case Nil
  then show ?case by simp
next
  case (Cons opc ops)
  obtain tag i1 i2 j1 j2 where opc: "opc = (tag, i1, i2, j1, j2)" by (cases opc) auto
  from Cons.prems have p: "i1 \<le> i2" "j1 \<le> j2" "i1 < i2 \<or> j1 < j2"
    and r: "op_chain ops i2 j2 la lb"
    by (auto simp: opc)
  have "starts_before opc y" if "y \<in> set ops" for y
    using op_chain_starts_ge[OF r that] p
    by (auto simp: starts_before_def opc rangeA_def rangeB_def)
  with Cons.IH[OF r] show ?case by simp
qed

lemma op_chain_in_range:
  "op_chain ops i j (len A) (len B) \<Longrightarrow> 0 \<le> i \<Longrightarrow> 0 \<le> j \<Longrightarrow> list_all (opcode_in_range A B) ops"
proof (induction ops arbitrary: i j)
  case Nil
  then show ?case by simp
next
  case (Cons opc ops)
  obtain tag i1 i2 j1 j2 where opc: "opc = (tag, i1, i2, j1, j2)" by (cases opc) auto
  from Cons.prems have p: "i1 = i" "j1 = j" "i1 \<le> i2" "j1 \<le> j2"
    and r: "op_chain ops i2 j2 (len A) (len B)"
    by (simp_all add: opc)
  from op_chain_le[OF r] p Cons.prems(2,3) have "opcode_in_range A B opc"
    by (simp add: opcode_in_range_def opc)
  moreover have "list_all (opcode_in_range A B) ops"
    using p Cons.prems(2,3) by (intro Cons.IH[OF r]) simp_all
  ultimately show ?case by simp
qed

text \<open>
  C4, as the code has it. For all section lists A and B the aligner returns opcodes;
  their starts into A and into B both never decrease from one opcode to the next, and
  one of the two increases; their ranges into A partition \<open>[0, len(A))\<close> and their
  ranges into B partition \<open>[0, len(B))\<close>.
\<close>

theorem get_opcodes_partition:
  "\<exists>opcodes. get_opcodes A B = Inr opcodes \<and> sorted_wrt starts_before opcodes
     \<and> partitions (map rangeA opcodes) 0 (len A) \<and> partitions (map rangeB opcodes) 0 (len B)"
  using get_opcodes_chain[of A B] op_chain_sorted op_chain_partitions by blast

text \<open>
  C4, as the claim states it: the starts into A and the starts into B both increase
  strictly. For the sections \<open>x, y\<close> against the section \<open>y\<close> the opcodes are a
  \<open>delete\<close> of \<open>[0, 1)\<close> and an \<open>equal\<close>, and both start at 0 in B.
\<close>

theorem get_opcodes_starts_not_strict:
  "get_opcodes [ascii ''x'', ascii ''y''] [ascii ''y'']
     = Inr [(Delete, 0, 1, 0, 0), (Equal, 1, 2, 0, 1)]
   \<and> \<not> sorted_wrt (<) (map (fst \<circ> rangeB) [(Delete, 0, 1, 0, 0), (Equal, 1, 2, 0, 1)])"
  by code_simp

lemma diff_sections_eq:
  "\<exists>opcodes.
     get_opcodes (split_sections a) (split_sections b) = Inr opcodes
     \<and> changes_loop (split_sections a) (split_sections b) opcodes []
         = Inr (synthesize_spec (split_sections a) (split_sections b) opcodes)
     \<and> diff_sections a b
         = Inr (take 100 (synthesize_spec (split_sections a) (split_sections b) opcodes))"
proof -
  from get_opcodes_chain[of "split_sections a" "split_sections b"] obtain opcodes where
    o: "get_opcodes (split_sections a) (split_sections b) = Inr opcodes"
    and c: "op_chain opcodes 0 0 (len (split_sections a)) (len (split_sections b))"
    by blast
  from op_chain_in_range[OF c] have
    "changes_loop (split_sections a) (split_sections b) opcodes []
       = Inr (synthesize_spec (split_sections a) (split_sections b) opcodes)"
    by (simp add: changes_loop_eq)
  with o show ?thesis by (simp add: diff_sections_def Let_def)
qed

text \<open>
  C8. \<open>diff_sections\<close> raises nothing, and what it returns is the first 100 of the
  Changes its loop over the opcodes has produced, in their order.
\<close>

theorem diff_sections_cap:
  "\<exists>opcodes changes.
     get_opcodes (split_sections a) (split_sections b) = Inr opcodes
     \<and> changes_loop (split_sections a) (split_sections b) opcodes [] = Inr changes
     \<and> diff_sections a b = Inr (take 100 changes)
     \<and> length (take 100 changes) = min 100 (length changes)
     \<and> length (take 100 changes) \<le> 100"
proof -
  from diff_sections_eq[of a b] obtain opcodes where
    "get_opcodes (split_sections a) (split_sections b) = Inr opcodes"
    "changes_loop (split_sections a) (split_sections b) opcodes []
       = Inr (synthesize_spec (split_sections a) (split_sections b) opcodes)"
    "diff_sections a b
       = Inr (take 100 (synthesize_spec (split_sections a) (split_sections b) opcodes))"
    by blast
  then show ?thesis
    by (intro exI[of _ opcodes]
        exI[of _ "synthesize_spec (split_sections a) (split_sections b) opcodes"]) simp
qed

subsection \<open>A list aligned with itself\<close>

fun positions :: "int \<Rightarrow> 'a list \<Rightarrow> 'a \<Rightarrow> int list" where
  "positions i [] x = []"
| "positions i (y # ys) x = (if y = x then i # positions (i + 1) ys x else positions (i + 1) ys x)"

lemma positions_notin: "x \<notin> set xs \<Longrightarrow> positions i xs x = []"
  by (induction xs arbitrary: i) auto

lemma len_eq_0 [simp]: "len xs = 0 \<longleftrightarrow> xs = []"
  by (simp add: len_def)

lemma len_Nil [simp]: "len [] = 0"
  by (simp add: len_def)

lemma chain_b_loop_eq:
  "chain_b_loop i xs m x =
     (if x \<in> set xs then Some ((case m x of None \<Rightarrow> [] | Some l \<Rightarrow> l) @ positions i xs x)
      else m x)"
  by (induction xs arbitrary: i m) (auto simp: Let_def positions_notin)

lemma chain_b_eq: "chain_b b x = (if x \<in> set b then Some (positions 0 b x) else None)"
  by (simp add: chain_b_def chain_b_loop_eq)

lemma positions_bounds: "j \<in> set (positions i xs x) \<Longrightarrow> i \<le> j \<and> j < i + len xs"
  by (induction xs arbitrary: i) (fastforce simp: len_def split: if_splits)+

lemma positions_distinct: "distinct (positions i xs x)"
  by (induction xs arbitrary: i) (auto dest: positions_bounds)

lemma positions_has: "k < length xs \<Longrightarrow> xs ! k = x \<Longrightarrow> i + int k \<in> set (positions i xs x)"
proof (induction xs arbitrary: i k)
  case Nil
  then show ?case by simp
next
  case (Cons y ys)
  show ?case
  proof (cases k)
    case 0
    with Cons.prems show ?thesis by simp
  next
    case (Suc n)
    with Cons.prems have "n < length ys" "ys ! n = x" by simp_all
    from Cons.IH[OF this, of "i + 1"] Suc show ?thesis by (simp add: add.assoc)
  qed
qed

lemma flm_inner_diag:
  assumes "distinct js" "\<forall>j \<in> set js. blo \<le> j \<and> j < bhi"
    "d \<in> set js \<or> (newj2len d = Some kk \<and> kk \<le> snd (snd best))"
    "kk = (case j2len (d - 1) of None \<Rightarrow> 0 | Some v \<Rightarrow> v) + 1"
    "flm_inner j2len i blo bhi js (newj2len, best) = (m', best')"
  shows "m' d = Some kk \<and> kk \<le> snd (snd best')"
  using assms(1,2,3,5)
proof (induction js arbitrary: newj2len best)
  case Nil
  then show ?case by simp
next
  case (Cons j js)
  obtain besti bestj bestsize where best: "best = (besti, bestj, bestsize)"
    by (cases best) auto
  from Cons.prems(2) have rng: "\<not> j < blo" "\<not> j \<ge> bhi" by auto
  define k where "k = (case j2len (j - 1) of None \<Rightarrow> 0 | Some v \<Rightarrow> v) + 1"
  define best1 where "best1 = (if k > bestsize then (i - k + 1, j - k + 1, k) else best)"
  have run: "flm_inner j2len i blo bhi js (newj2len(j \<mapsto> k), best1) = (m', best')"
    using Cons.prems(4) rng by (auto simp: best k_def best1_def Let_def)
  have sz: "bestsize \<le> snd (snd best1)" "k \<le> snd (snd best1)"
    by (simp_all add: best1_def best)
  have "d \<in> set js \<or> ((newj2len(j \<mapsto> k)) d = Some kk \<and> kk \<le> snd (snd best1))"
  proof (cases "j = d")
    case True
    then have "k = kk" by (simp add: k_def assms(4))
    with True sz show ?thesis by simp
  next
    case False
    with Cons.prems(3) sz show ?thesis by (auto simp: best)
  qed
  moreover from Cons.prems have "distinct js" "\<forall>j \<in> set js. blo \<le> j \<and> j < bhi" by simp_all
  ultimately show ?case using Cons.IH run by blast
qed

lemma flm_outer_self:
  assumes "h = len s - 1" "0 \<le> i" "i \<le> len s" "row_ok 0 0 (len s) i j2len"
    "match_in 0 i 0 (len s) best" "i = 0 \<or> j2len (i - 1) = Some i" "i \<le> snd (snd best)"
  shows "\<exists>m' best'. flm_outer s (chain_b s) 0 (len s) [i..h] (j2len, best) = Inr (m', best')
           \<and> match_in 0 (len s) 0 (len s) best' \<and> len s \<le> snd (snd best')"
  using assms
proof (induction i h arbitrary: j2len best rule: upto.induct)
  case (1 i h)
  show ?case
  proof (cases "i \<le> h")
    case False
    with "1.prems" have "i = len s" by simp
    with "1.prems" False show ?thesis by simp
  next
    case True
    with "1.prems" have lt: "i < len s" by simp
    let ?x = "s ! nat i"
    let ?js = "positions 0 s ?x"
    have mem: "?x \<in> set s" using lt "1.prems"(2) by (simp add: len_def)
    have idx: "py_index s i = Inr ?x"
      using lt "1.prems"(2) by (simp add: py_index_in_range)
    have b2j: "chain_b s ?x = Some ?js" using mem by (simp add: chain_b_eq)
    obtain m1 best1 where st: "flm_inner j2len i 0 (len s) ?js (Map.empty, best) = (m1, best1)"
      by (cases "flm_inner j2len i 0 (len s) ?js (Map.empty, best)") auto
    have inv: "row_ok 0 0 (len s) (i + 1) m1 \<and> match_in 0 (i + 1) 0 (len s) best1"
      by (rule flm_inner_inv[OF "1.prems"(4) row_ok_empty match_in_mono[OF "1.prems"(5)]
            "1.prems"(2) st]) simp
    have kk: "(case j2len (i - 1) of None \<Rightarrow> 0 | Some v \<Rightarrow> v) + 1 = i + 1"
    proof (cases "i = 0")
      case True
      have "j2len (- 1) = None"
      proof (cases "j2len (- 1)")
        case (Some v)
        from row_okD[OF "1.prems"(4) Some] show ?thesis by simp
      qed simp
      with True show ?thesis by simp
    next
      case False
      with "1.prems"(6) show ?thesis by simp
    qed
    have "i \<in> set ?js"
      using positions_has[of "nat i" s ?x 0] lt "1.prems"(2) by (simp add: len_def)
    then have diag: "m1 i = Some (i + 1) \<and> i + 1 \<le> snd (snd best1)"
      using flm_inner_diag[OF positions_distinct _ _ kk[symmetric] st]
        positions_bounds[of _ 0 s ?x] by auto
    have "\<exists>m' best'. flm_outer s (chain_b s) 0 (len s) [i + 1..h] (m1, best1) = Inr (m', best')
           \<and> match_in 0 (len s) 0 (len s) best' \<and> len s \<le> snd (snd best')"
      using inv diag lt "1.prems"(1,2) by (intro "1.IH"[OF True]) simp_all
    then show ?thesis
      by (simp add: upto_rec1[OF True] idx b2j st)
  qed
qed

lemma find_longest_match_self:
  "find_longest_match s s (chain_b s) 0 (len s) 0 (len s) = Inr (0, 0, len s)"
proof -
  have "match_in 0 0 0 (len s) (0, 0, 0)" by (simp add: match_in_def)
  from flm_outer_self[of "len s - 1" s 0 Map.empty "(0, 0, 0)"] row_ok_empty this
  obtain m' best' where o: "flm_outer s (chain_b s) 0 (len s) (py_range 0 (len s))
      (Map.empty, (0, 0, 0)) = Inr (m', best')"
    and m: "match_in 0 (len s) 0 (len s) best'" and sz: "len s \<le> snd (snd best')"
    by (auto simp: py_range_def len_def)
  from m sz have best': "best' = (0, 0, len s)"
    by (cases best') (auto simp: match_in_def len_def)
  have l: "extend_left s s 0 0 (0, 0, len s) = Inr (0, 0, len s)"
    by (simp add: extend_left.simps)
  have r: "extend_right s s (len s) (len s) (0, 0, len s) = Inr (0, 0, len s)"
    by (simp add: extend_right.simps)
  show ?thesis by (simp add: find_longest_match_def o best' l r)
qed

lemma get_opcodes_self:
  "get_opcodes s s = Inr (if s = [] then [] else [(Equal, 0, len s, 0, len s)])"
proof -
  have "blocks_loop s s (chain_b s) [(0, len s, 0, len s)] []
          = Inr (if s = [] then [] else [(0, 0, len s)])"
    by (simp add: blocks_loop.simps find_longest_match_self)
  then show ?thesis
    by (simp add: get_opcodes_def get_matching_blocks_def Let_def)
qed

text \<open>
  C5. Aligned with itself, a section list yields one \<open>equal\<close> opcode over the whole list
  (none when the list is empty), and diffing a text against itself yields no Change.
\<close>

theorem diff_sections_self:
  "get_opcodes (split_sections t) (split_sections t)
     = Inr (if split_sections t = [] then []
            else [(Equal, 0, len (split_sections t), 0, len (split_sections t))])
   \<and> diff_sections t t = Inr []"
  by (simp add: diff_sections_def get_opcodes_self Let_def)

section \<open>Properties of the endpoints\<close>

lemma analyze_report:
  assumes "analyze env document file = Inr report"
  shows "\<exists>up text page_offsets pages ftype.
           (case document of Some d \<Rightarrow> Some d | None \<Rightarrow> file) = Some up
           \<and> analyze_extract env (upload_name env up) (read_bytes up)
               = Inr (text, page_offsets, pages, ftype)
           \<and> str_strip text \<noteq> []
           \<and> ar_analyzedText report =
               (if len (str_strip text) > MAX_CHARS env
                then py_slice_to (str_strip text) (MAX_CHARS env) else str_strip text)
           \<and> ar_pageOffsets report = page_offsets \<and> ar_pages report = pages
           \<and> ar_type report = ftype"
proof -
  let ?up = "case document of Some d \<Rightarrow> Some d | None \<Rightarrow> file"
  obtain up where up: "?up = Some up"
    using assms by (cases ?up) (simp_all add: analyze_def)
  let ?ext = "analyze_extract env (upload_name env up) (read_bytes up)"
  obtain t0 page_offsets pages ftype where
    ext: "?ext = Inr (t0, page_offsets, pages, ftype)"
    using assms up by (cases ?ext) (auto simp: analyze_def)
  have ne: "str_strip t0 \<noteq> []"
    using assms up ext by (cases "str_strip t0 = []") (simp_all add: analyze_def)
  let ?t = "if len (str_strip t0) > MAX_CHARS env
            then py_slice_to (str_strip t0) (MAX_CHARS env) else str_strip t0"
  obtain out where out: "analyze_llm env ?t = Inr out"
    using assms up ext ne by (cases "analyze_llm env ?t") (simp_all add: analyze_def Let_def)
  have "report = \<lparr>ar_summary = lo_summary out,
      ar_obligations = lo_obligations out, ar_risks = lo_risks out,
      ar_clauses = lo_clauses out, ar_riskLevel = classify_overall_risk (lo_risks out),
      ar_tags = take 6 (dict_fromkeys [] (lo_tags out)),
      ar_size = str_int (round_div_1024 (len (read_bytes up))) @ ascii '' KB'',
      ar_type = ftype, ar_pages = pages, ar_analyzedText = ?t, ar_pageOffsets = page_offsets,
      ar_highlights = build_highlights (str_lower env) ?t
        (lo_obligations out) (lo_risks out) (lo_clauses out)\<rparr>"
    using assms up ext ne out by (simp add: analyze_def Let_def del: ascii_simps)
  then have r: "ar_analyzedText report = ?t \<and> ar_pageOffsets report = page_offsets
      \<and> ar_pages report = pages \<and> ar_type report = ftype"
    by simp
  show ?thesis
    by (rule exI[of _ up], rule exI[of _ t0], rule exI[of _ page_offsets],
        rule exI[of _ pages], rule exI[of _ ftype]) (use up ext ne r in blast)
qed

lemma analyze_extract_non_pdf:
  "analyze_extract env name raw = Inr (text, page_offsets, pages, ftype) \<Longrightarrow> ftype \<noteq> pdf
   \<Longrightarrow> page_offsets = [] \<and> pages = 1"
  by (simp add: analyze_extract_def Let_def del: ascii_simps
      split: if_splits sum.splits prod.splits)

text \<open>
  C2, as the code has it. A report for a docx or txt document has the empty list of
  page offsets and one page: \<open>page_offsets\<close> starts as \<open>[]\<close> and only the PDF branch
  assigns it.
\<close>

theorem analyze_non_paginated:
  assumes "analyze env document file = Inr report" and "ar_type report \<noteq> pdf"
  shows "ar_pageOffsets report = [] \<and> ar_pages report = 1"
  using analyze_report[OF assms(1)] assms(2) analyze_extract_non_pdf by blast


lemmas endpoint_defs =
  analyze_def upload_name_def analyze_extract_def analyze_llm_def
  read_pdf_and_offsets_def read_docx_def
  str_endswith_def str_strip_def isspace_def len_def round_div_1024_def str_int_def
  build_highlights_def classify_overall_risk_def py_slice_to_def py_slice_bound_def Let_def

lemma analyze_sample_txt:
  "analyze sample_env (Some \<lparr>filename = Some (ascii ''a.txt''), read_bytes = ''hello''\<rparr>) None
   = Inr \<lparr>ar_summary = ascii ''s'', ar_obligations = [], ar_risks = [], ar_clauses = [],
          ar_riskLevel = low, ar_tags = [], ar_size = ascii ''0 KB'', ar_type = txt,
          ar_pages = 1, ar_analyzedText = ascii ''hello'', ar_pageOffsets = [],
          ar_highlights = []\<rparr>"
  by (simp add: endpoint_defs sample_env_def lower_sample_def lower_cp_def)

theorem analyze_non_paginated_witness:
  "analyze sample_env (Some \<lparr>filename = Some (ascii ''a.txt''), read_bytes = ''hello''\<rparr>) None
   = Inr \<lparr>ar_summary = ascii ''s'', ar_obligations = [], ar_risks = [], ar_clauses = [],
          ar_riskLevel = low, ar_tags = [], ar_size = ascii ''0 KB'', ar_type = txt,
          ar_pages = 1, ar_analyzedText = ascii ''hello'', ar_pageOffsets = [],
          ar_highlights = []\<rparr>
   \<and> ar_pageOffsets \<lparr>ar_summary = ascii ''s'', ar_obligations = [], ar_risks = [],
          ar_clauses = [], ar_riskLevel = low, ar_tags = [], ar_size = ascii ''0 KB'',
          ar_type = txt, ar_pages = 1, ar_analyzedText = ascii ''hello'', ar_pageOffsets = [],
          ar_highlights = []\<rparr> = []"
  using analyze_non_paginated[OF analyze_sample_txt] analyze_sample_txt by simp

text \<open>
  C2, as the claim states it: the page offsets of a txt document are \<open>[0]\<close>. For the
  upload \<open>a.txt\<close> with the content \<open>hello\<close> the report has no page offset at all.
\<close>

theorem analyze_txt_no_page_offset:
  "analyze sample_env (Some \<lparr>filename = Some (ascii ''a.txt''), read_bytes = ''hello''\<rparr>) None
   = Inr \<lparr>ar_summary = ascii ''s'', ar_obligations = [], ar_risks = [], ar_clauses = [],
          ar_riskLevel = low, ar_tags = [], ar_size = ascii ''0 KB'', ar_type = txt,
          ar_pages = 1, ar_analyzedText = ascii ''hello'', ar_pageOffsets = [],
          ar_highlights = []\<rparr>
   \<and> ([] :: int list) \<noteq> [0]"
  using analyze_sample_txt by simp

lemma py_slice_to_take: "0 \<le> n \<Longrightarrow> n \<le> len xs \<Longrightarrow> py_slice_to xs n = take (nat n) xs"
  by (simp add: py_slice_to_def py_slice_bound_def len_def)

text \<open>
  C9. When the stripped extracted text is longer than a maximum character count
  \<open>MAX_CHARS \<ge> 0\<close>, the report's \<open>analyzedText\<close> is the prefix of that length of the
  stripped text, and its \<open>pageOffsets\<close> are the offsets the extraction computed.
\<close>

theorem analyze_truncation:
  assumes "analyze env document file = Inr report"
    and "(case document of Some d \<Rightarrow> Some d | None \<Rightarrow> file) = Some up"
    and "analyze_extract env (upload_name env up) (read_bytes up)
           = Inr (extracted, page_offsets, pages, ftype)"
    and "0 \<le> MAX_CHARS env"
    and "len (str_strip extracted) > MAX_CHARS env"
  shows "ar_analyzedText report = take (nat (MAX_CHARS env)) (str_strip extracted)
     \<and> len (ar_analyzedText report) = MAX_CHARS env
     \<and> ar_pageOffsets report = page_offsets"
proof -
  from analyze_report[OF assms(1)] assms(2,3,5) have
    "ar_analyzedText report = py_slice_to (str_strip extracted) (MAX_CHARS env)"
    "ar_pageOffsets report = page_offsets"
    by auto
  moreover have "py_slice_to (str_strip extracted) (MAX_CHARS env)
      = take (nat (MAX_CHARS env)) (str_strip extracted)"
    using assms(4,5) by (simp add: py_slice_to_take)
  ultimately show ?thesis using assms(4,5) by (simp add: len_def)
qed

lemma analyze_sample_pdf:
  "analyze (sample_env\<lparr>MAX_CHARS := 1\<rparr>) None
     (Some \<lparr>filename = Some (ascii ''a.pdf''), read_bytes = []\<rparr>)
   = Inr \<lparr>ar_summary = ascii ''s'', ar_obligations = [], ar_risks = [], ar_clauses = [],
          ar_riskLevel = low, ar_tags = [], ar_size = ascii ''0 KB'', ar_type = pdf,
          ar_pages = 2, ar_analyzedText = ascii ''a'', ar_pageOffsets = [0, 2],
          ar_highlights = []\<rparr>"
  by (simp add: endpoint_defs sample_env_def lower_sample_def lower_cp_def)

lemma analyze_extract_sample_pdf:
  "analyze_extract (sample_env\<lparr>MAX_CHARS := 1\<rparr>)
     (upload_name (sample_env\<lparr>MAX_CHARS := 1\<rparr>) \<lparr>filename = Some (ascii ''a.pdf''), read_bytes = []\<rparr>)
     (read_bytes \<lparr>filename = Some (ascii ''a.pdf''), read_bytes = []\<rparr>)
   = Inr (ascii ''ab'' @ [10] @ ascii ''cd'', [0, 2], 2, pdf)"
  by (simp add: endpoint_defs sample_env_def lower_sample_def lower_cp_def)

theorem analyze_truncation_witness:
  "analyze (sample_env\<lparr>MAX_CHARS := 1\<rparr>) None
     (Some \<lparr>filename = Some (ascii ''a.pdf''), read_bytes = []\<rparr>)
   = Inr \<lparr>ar_summary = ascii ''s'', ar_obligations = [], ar_risks = [], ar_clauses = [],
          ar_riskLevel = low, ar_tags = [], ar_size = ascii ''0 KB'', ar_type = pdf,
          ar_pages = 2, ar_analyzedText = ascii ''a'', ar_pageOffsets = [0, 2],
          ar_highlights = []\<rparr>
   \<and> 0 \<le> MAX_CHARS (sample_env\<lparr>MAX_CHARS := 1\<rparr>)
   \<and> len (str_strip (ascii ''ab'' @ [10] @ ascii ''cd'')) > MAX_CHARS (sample_env\<lparr>MAX_CHARS := 1\<rparr>)
   \<and> ascii ''a'' = take (nat (MAX_CHARS (sample_env\<lparr>MAX_CHARS := 1\<rparr>)))
         (str_strip (ascii ''ab'' @ [10] @ ascii ''cd''))
   \<and> len (ascii ''a'') = MAX_CHARS (sample_env\<lparr>MAX_CHARS := 1\<rparr>)"
proof -
  have h1: "0 \<le> MAX_CHARS (sample_env\<lparr>MAX_CHARS := 1\<rparr>)" by simp
  have h2: "len (str_strip (ascii ''ab'' @ [10] @ ascii ''cd'')) > MAX_CHARS (sample_env\<lparr>MAX_CHARS := 1\<rparr>)"
    by (simp add: str_strip_def isspace_def len_def)
  from analyze_truncation[OF analyze_sample_pdf _ analyze_extract_sample_pdf h1 h2]
  show ?thesis using analyze_sample_pdf h1 h2 by (simp add: str_strip_def isspace_def len_def)
qed


subsection \<open>\<open>compare\<close> when one side has no text\<close>

lemma get_opcodes_Nil_left:
  "get_opcodes [] b = Inr (if b = [] then [] else [(Insert, 0, 0, 0, len b)])"
proof -
  have "find_longest_match [] b (chain_b b) 0 (len []) 0 (len b) = Inr (0, 0, 0)"
    by (simp add: find_longest_match_def py_range_def extend_left.simps extend_right.simps)
  then have "blocks_loop [] b (chain_b b) [(0, len [], 0, len b)] [] = Inr []"
    by (simp add: blocks_loop.simps)
  then show ?thesis
    by (simp add: get_opcodes_def get_matching_blocks_def Let_def len_def)
qed

lemma flm_outer_empty_b2j:
  "0 \<le> i \<Longrightarrow> h < len a \<Longrightarrow>
   flm_outer a Map.empty blo bhi [i..h] (Map.empty, best) = Inr (Map.empty, best)"
proof (induction i h rule: upto.induct)
  case (1 i h)
  show ?case
  proof (cases "i \<le> h")
    case False
    then show ?thesis by simp
  next
    case True
    have "py_index a i = Inr (a ! nat i)"
      using "1.prems" True by (simp add: py_index_in_range)
    moreover have "flm_outer a Map.empty blo bhi [i + 1..h] (Map.empty, best) = Inr (Map.empty, best)"
      using "1.prems" by (intro "1.IH"[OF True]) simp_all
    ultimately show ?thesis by (simp add: upto_rec1[OF True])
  qed
qed

lemma get_opcodes_Nil_right:
  "get_opcodes a [] = Inr (if a = [] then [] else [(Delete, 0, len a, 0, 0)])"
proof -
  have "flm_outer a Map.empty 0 0 [0..len a - 1] (Map.empty, (0, 0, 0)) = Inr (Map.empty, (0, 0, 0))"
    by (rule flm_outer_empty_b2j) simp_all
  then have "find_longest_match a [] (chain_b []) 0 (len a) 0 (len []) = Inr (0, 0, 0)"
    by (simp add: find_longest_match_def py_range_def chain_b_def extend_left.simps
        extend_right.simps)
  then have "blocks_loop a [] (chain_b []) [(0, len a, 0, len [])] [] = Inr []"
    by (simp add: blocks_loop.simps)
  then show ?thesis
    by (simp add: get_opcodes_def get_matching_blocks_def Let_def len_def)
qed

lemma split_sections_Nil [simp]: "split_sections [] = []"
  by (simp add: split_sections_def str_strip_def)

lemma diff_sections_left_empty:
  assumes "split_sections a = []"
  shows "diff_sections a b
     = Inr (take 100 (map (added_change (split_sections b)) [0..len (split_sections b) - 1]))"
proof (cases "split_sections b = []")
  case True
  with assms show ?thesis by (simp add: diff_sections_def get_opcodes_Nil_left)
next
  case False
  have "list_all (opcode_in_range [] (split_sections b)) [(Insert, 0, 0, 0, len (split_sections b))]"
    by (simp add: opcode_in_range_def len_def)
  from changes_loop_eq[OF this, of "[]"] False assms show ?thesis
    by (simp add: diff_sections_def get_opcodes_Nil_left synthesize_spec_def Let_def)
qed

lemma diff_sections_right_empty:
  assumes "split_sections b = []"
  shows "diff_sections a b
     = Inr (take 100 (map (removed_change (split_sections a)) [0..len (split_sections a) - 1]))"
proof (cases "split_sections a = []")
  case True
  with assms show ?thesis by (simp add: diff_sections_def get_opcodes_Nil_left)
next
  case False
  have "list_all (opcode_in_range (split_sections a) []) [(Delete, 0, len (split_sections a), 0, 0)]"
    by (simp add: opcode_in_range_def len_def)
  from changes_loop_eq[OF this, of "[]"] False assms show ?thesis
    by (simp add: diff_sections_def get_opcodes_Nil_right synthesize_spec_def Let_def)
qed

lemma py_slice_to_Nil [simp]: "py_slice_to [] n = []"
  by (simp add: py_slice_to_def)

lemma diff_sections_returns: "\<exists>chs. diff_sections a b = Inr chs"
  using diff_sections_eq[of a b] by blast

lemma compare_unfold:
  assumes "extract env (upload_name env fileA) (read_bytes fileA) = Inr ta"
    and "extract env (upload_name env fileB) (read_bytes fileB) = Inr tb"
  shows "compare env fileA fileB =
     (if str_strip ta = [] \<and> str_strip tb = [] then
        Inl (HTTPException 400 (ascii ''Could not extract text from either file.''))
      else
        (case diff_sections (py_slice_to (str_strip ta) (MAX_CHARS env))
                (py_slice_to (str_strip tb) (MAX_CHARS env)) of
           Inl e \<Rightarrow> Inl e
         | Inr chs \<Rightarrow>
             Inr \<lparr>cr_versionA = \<lparr>v_title = version_title fileA (ascii ''Version A''),
                                 v_content = py_slice_to (str_strip ta) (MAX_CHARS env)\<rparr>,
                  cr_versionB = \<lparr>v_title = version_title fileB (ascii ''Version B''),
                                 v_content = py_slice_to (str_strip tb) (MAX_CHARS env)\<rparr>,
                  cr_changes = chs\<rparr>))"
  using assms by (simp add: compare_def Let_def del: ascii_simps)

text \<open>
  C10. When both documents extract, \<open>compare\<close> raises exactly when both texts are empty
  after stripping. When only A's is, it returns A's content as the empty string and
  one \<open>added\<close> Change per section of B's returned content, up to 100; when only B's
  is, one \<open>removed\<close> Change per section of A's returned content, up to 100.
\<close>

theorem compare_empty_sides:
  assumes "extract env (upload_name env fileA) (read_bytes fileA) = Inr ta"
    and "extract env (upload_name env fileB) (read_bytes fileB) = Inr tb"
  shows "((\<exists>e. compare env fileA fileB = Inl e) \<longleftrightarrow> str_strip ta = [] \<and> str_strip tb = [])
    \<and> (str_strip ta = [] \<and> str_strip tb \<noteq> [] \<longrightarrow>
         (\<exists>report. compare env fileA fileB = Inr report
            \<and> v_content (cr_versionA report) = []
            \<and> v_content (cr_versionB report) = py_slice_to (str_strip tb) (MAX_CHARS env)
            \<and> cr_changes report =
                take 100 (map (added_change (split_sections (v_content (cr_versionB report))))
                  [0..len (split_sections (v_content (cr_versionB report))) - 1])))
    \<and> (str_strip ta \<noteq> [] \<and> str_strip tb = [] \<longrightarrow>
         (\<exists>report. compare env fileA fileB = Inr report
            \<and> v_content (cr_versionB report) = []
            \<and> v_content (cr_versionA report) = py_slice_to (str_strip ta) (MAX_CHARS env)
            \<and> cr_changes report =
                take 100 (map (removed_change (split_sections (v_content (cr_versionA report))))
                  [0..len (split_sections (v_content (cr_versionA report))) - 1])))"
proof (intro conjI impI)
  note u = compare_unfold[OF assms]
  obtain chs where chs: "diff_sections (py_slice_to (str_strip ta) (MAX_CHARS env))
      (py_slice_to (str_strip tb) (MAX_CHARS env)) = Inr chs"
    using diff_sections_returns by blast
  show "(\<exists>e. compare env fileA fileB = Inl e) \<longleftrightarrow> str_strip ta = [] \<and> str_strip tb = []"
    unfolding u chs by auto
next
  assume h: "str_strip ta = [] \<and> str_strip tb \<noteq> []"
  let ?B = "py_slice_to (str_strip tb) (MAX_CHARS env)"
  have "compare env fileA fileB =
      Inr \<lparr>cr_versionA = \<lparr>v_title = version_title fileA (ascii ''Version A''), v_content = []\<rparr>,
           cr_versionB = \<lparr>v_title = version_title fileB (ascii ''Version B''), v_content = ?B\<rparr>,
           cr_changes = take 100 (map (added_change (split_sections ?B))
             [0..len (split_sections ?B) - 1])\<rparr>"
    unfolding compare_unfold[OF assms] using h
    by (simp add: diff_sections_left_empty del: ascii_simps)
  then show "\<exists>report. compare env fileA fileB = Inr report
      \<and> v_content (cr_versionA report) = []
      \<and> v_content (cr_versionB report) = py_slice_to (str_strip tb) (MAX_CHARS env)
      \<and> cr_changes report =
          take 100 (map (added_change (split_sections (v_content (cr_versionB report))))
            [0..len (split_sections (v_content (cr_versionB report))) - 1])"
    by simp
next
  assume h: "str_strip ta \<noteq> [] \<and> str_strip tb = []"
  let ?A = "py_slice_to (str_strip ta) (MAX_CHARS env)"
  have "compare env fileA fileB =
      Inr \<lparr>cr_versionA = \<lparr>v_title = version_title fileA (ascii ''Version A''), v_content = ?A\<rparr>,
           cr_versionB = \<lparr>v_title = version_title fileB (ascii ''Version B''), v_content = []\<rparr>,
           cr_changes = take 100 (map (removed_change (split_sections ?A))
             [0..len (split_sections ?A) - 1])\<rparr>"
    unfolding compare_unfold[OF assms] using h
    by (simp add: diff_sections_right_empty del: ascii_simps)
  then show "\<exists>report. compare env fileA fileB = Inr report
      \<and> v_content (cr_versionB report) = []
      \<and> v_content (cr_versionA report) = py_slice_to (str_strip ta) (MAX_CHARS env)
      \<and> cr_changes report =
          take 100 (map (removed_change (split_sections (v_content (cr_versionA report))))
            [0..len (split_sections (v_content (cr_versionA report))) - 1])"
    by simp
qed


theorem compare_empty_sides_witness:
  "(\<exists>e. compare sample_env \<lparr>filename = Some (ascii ''a.txt''), read_bytes = ''  ''\<rparr>
           \<lparr>filename = Some (ascii ''a.txt''), read_bytes = ''  ''\<rparr> = Inl e)
   \<and> (\<exists>r. compare sample_env \<lparr>filename = Some (ascii ''a.txt''), read_bytes = ''  ''\<rparr>
           \<lparr>filename = Some (ascii ''b.txt''), read_bytes = ''x''\<rparr> = Inr r
         \<and> v_content (cr_versionA r) = []
         \<and> cr_changes r = [added_change [ascii ''x''] 0])
   \<and> (\<exists>r. compare sample_env \<lparr>filename = Some (ascii ''b.txt''), read_bytes = ''x''\<rparr>
           \<lparr>filename = Some (ascii ''a.txt''), read_bytes = ''  ''\<rparr> = Inr r
         \<and> v_content (cr_versionB r) = []
         \<and> cr_changes r = [removed_change [ascii ''x''] 0])"
proof -
  let ?E = "\<lparr>filename = Some (ascii ''a.txt''), read_bytes = ''  ''\<rparr>"
  let ?X = "\<lparr>filename = Some (ascii ''b.txt''), read_bytes = ''x''\<rparr>"
  have eE: "extract sample_env (upload_name sample_env ?E) (read_bytes ?E) = Inr (ascii ''  '')"
    by (simp add: extract_def upload_name_def sample_env_def str_endswith_def lower_sample_def
        lower_cp_def)
  have eX: "extract sample_env (upload_name sample_env ?X) (read_bytes ?X) = Inr (ascii ''x'')"
    by (simp add: extract_def upload_name_def sample_env_def str_endswith_def lower_sample_def
        lower_cp_def)
  have sE: "str_strip (ascii ''  '') = []" and sX: "str_strip (ascii ''x'') = ascii ''x''"
    by (simp_all add: str_strip_def isspace_def)
  have secs: "split_sections (py_slice_to (ascii ''x'') (MAX_CHARS sample_env)) = [ascii ''x'']"
    by (simp add: split_sections_def str_strip_def isspace_def py_slice_to_def
        py_slice_bound_def sample_env_def)
  from compare_empty_sides[OF eE eE] have 1: "\<exists>e. compare sample_env ?E ?E = Inl e"
    by (simp only: sE simp_thms)
  from compare_empty_sides[OF eE eX] obtain r where
    "compare sample_env ?E ?X = Inr r" "v_content (cr_versionA r) = []"
    "v_content (cr_versionB r) = py_slice_to (str_strip (ascii ''x'')) (MAX_CHARS sample_env)"
    "cr_changes r = take 100 (map (added_change (split_sections (v_content (cr_versionB r))))
        [0..len (split_sections (v_content (cr_versionB r))) - 1])"
    unfolding sE sX by auto
  then have 2: "\<exists>r. compare sample_env ?E ?X = Inr r \<and> v_content (cr_versionA r) = []
      \<and> cr_changes r = [added_change [ascii ''x''] 0]"
    by (simp add: sX secs len_def del: ascii_simps)
  from compare_empty_sides[OF eX eE] obtain r where
    "compare sample_env ?X ?E = Inr r" "v_content (cr_versionB r) = []"
    "v_content (cr_versionA r) = py_slice_to (str_strip (ascii ''x'')) (MAX_CHARS sample_env)"
    "cr_changes r = take 100 (map (removed_change (split_sections (v_content (cr_versionA r))))
        [0..len (split_sections (v_content (cr_versionA r))) - 1])"
    unfolding sE sX by auto
  then have 3: "\<exists>r. compare sample_env ?X ?E = Inr r \<and> v_content (cr_versionB r) = []
      \<and> cr_changes r = [removed_change [ascii ''x''] 0]"
    by (simp add: sX secs len_def del: ascii_simps)
  from 1 2 3 show ?thesis by blast
qed

end
